theory Spec2Isabelle
  imports Main
begin

section \<open>Progressive context extension: the embedding\<close>

text \<open>
  The development embeds the current revision of
  \<^verbatim>\<open>src/extensions/progressive-context.ts\<close> (lines 1 to 297 of the file; the text
  after the separator is an older revision of the same extension, which has neither the
  capacity bound of the session table nor the path-safety check).

  JavaScript strings are modelled as \<^typ>\<open>string\<close>: one \<^typ>\<open>char\<close> stands for one
  code unit, \<open>s.length\<close> is \<^const>\<open>length\<close>, \<open>===\<close> on strings is equality.
  Integral JavaScript numbers are \<^typ>\<open>int\<close>.
\<close>

subsection \<open>String primitives of the language\<close>

text \<open>\<open>s.startsWith(p)\<close>.\<close>

definition startsWith :: "string \<Rightarrow> string \<Rightarrow> bool" where
  "startsWith s p = (take (length p) s = p)"

text \<open>
  \<open>s.slice(0, e)\<close> for an integral \<open>e\<close>: a negative end counts from the end of the
  string, and the end is clamped to the string.
\<close>

definition slice0 :: "string \<Rightarrow> int \<Rightarrow> string" where
  "slice0 s e = (if e < 0 then take (nat (int (length s) + e)) s else take (nat e) s)"

text \<open>
  \<open>s.lastIndexOf(p)\<close>: the greatest index at which \<open>p\<close> occurs in \<open>s\<close>, or \<open>-1\<close>.
  The candidates are tried from the last possible start downwards.
\<close>

fun lastIndexOfFrom :: "string \<Rightarrow> string \<Rightarrow> nat \<Rightarrow> int" where
  "lastIndexOfFrom s p 0 = (if startsWith s p then 0 else - 1)"
| "lastIndexOfFrom s p (Suc k) =
     (if startsWith (drop (Suc k) s) p then int (Suc k) else lastIndexOfFrom s p k)"

definition lastIndexOf :: "string \<Rightarrow> string \<Rightarrow> int" where
  "lastIndexOf s p =
     (if length s < length p then - 1 else lastIndexOfFrom s p (length s - length p))"

text \<open>\<open>xs.join(sep)\<close> on an array of strings.\<close>

fun js_join :: "string \<Rightarrow> string list \<Rightarrow> string" where
  "js_join sep [] = []"
| "js_join sep [x] = x"
| "js_join sep (x # y # ys) = x @ sep @ js_join sep (y # ys)"

text \<open>The decimal rendering of a non-negative integer inside a template literal.\<close>

fun string_of_nat :: "nat \<Rightarrow> string" where
  "string_of_nat n =
     (if n < 10 then [char_of (48 + n)]
      else string_of_nat (n div 10) @ [char_of (48 + n mod 10)])"

subsection \<open>The \<open>node:path\<close> functions the extension calls (POSIX flavour)\<close>

text \<open>
  \<open>node:path\<close> is a library of the runtime, not code of the repository. The functions
  below follow the POSIX implementation of Node.js (\<open>lib/path.js\<close>):
  \<open>isAbsolute\<close>, \<open>normalize\<close>, \<open>join\<close>, \<open>resolve\<close>, \<open>dirname\<close> and \<open>relative\<close>.
  \<open>normalizeString\<close> is written on the list of segments between separators, which is
  what the character loop of the library computes.
\<close>

fun splitSlash :: "string \<Rightarrow> string list" where
  "splitSlash [] = [[]]"
| "splitSlash (c # cs) =
     (if c = CHR ''/'' then [] # splitSlash cs
      else (case splitSlash cs of [] \<Rightarrow> [[c]] | s # ss \<Rightarrow> (c # s) # ss))"

text \<open>
  One segment of \<open>normalizeString\<close>: empty segments and \<open>.\<close> are dropped, \<open>..\<close> removes
  the last kept segment unless there is none or it is \<open>..\<close> itself, in which case \<open>..\<close>
  is kept when the path may climb above its start.
\<close>

definition normStep :: "bool \<Rightarrow> string list \<Rightarrow> string \<Rightarrow> string list" where
  "normStep allowAboveRoot res seg =
     (if seg = [] \<or> seg = ''.'' then res
      else if seg = ''..'' then
        (if res \<noteq> [] \<and> last res \<noteq> ''..'' then butlast res
         else if allowAboveRoot then res @ [''..''] else res)
      else res @ [seg])"

definition normalizeSegments :: "string \<Rightarrow> bool \<Rightarrow> string list" where
  "normalizeSegments p allowAboveRoot = foldl (normStep allowAboveRoot) [] (splitSlash p)"

definition normalizeString :: "string \<Rightarrow> bool \<Rightarrow> string" where
  "normalizeString p allowAboveRoot = js_join ''/'' (normalizeSegments p allowAboveRoot)"

definition path_isAbsolute :: "string \<Rightarrow> bool" where
  "path_isAbsolute p = (p \<noteq> [] \<and> hd p = CHR ''/'')"

definition path_normalize :: "string \<Rightarrow> string" where
  "path_normalize p =
     (if p = [] then ''.''
      else
        let isAbsolute = (hd p = CHR ''/'');
            trailingSeparator = (last p = CHR ''/'');
            q = normalizeString p (\<not> isAbsolute)
        in if q = [] then (if isAbsolute then ''/'' else if trailingSeparator then ''./'' else ''.'')
           else (if isAbsolute then ''/'' else []) @ q @ (if trailingSeparator then ''/'' else []))"

text \<open>\<open>path.join(a, b)\<close>: the non-empty arguments joined by a separator, normalised.\<close>

definition path_join :: "string \<Rightarrow> string \<Rightarrow> string" where
  "path_join a b =
     (let parts = filter (\<lambda>x. x \<noteq> []) [a, b]
      in if parts = [] then ''.'' else path_normalize (js_join ''/'' parts))"

text \<open>
  \<open>path.resolve(p)\<close> with one argument; \<open>cwd\<close> is \<open>process.cwd()\<close>, consulted only
  when \<open>p\<close> is not absolute.
\<close>

definition path_resolve :: "string \<Rightarrow> string \<Rightarrow> string" where
  "path_resolve cwd p =
     (let r1 = (if p = [] then [] else p @ ''/'');
          abs1 = path_isAbsolute p;
          r2 = (if abs1 \<or> cwd = [] then r1 else cwd @ ''/'' @ r1);
          resolvedAbsolute = (abs1 \<or> path_isAbsolute cwd);
          q = normalizeString r2 (\<not> resolvedAbsolute)
      in if resolvedAbsolute then ''/'' @ q else if q \<noteq> [] then q else ''.'')"

text \<open>
  \<open>path.dirname(p)\<close>: scanning from the end and never looking at index 0, trailing
  separators are skipped, then the last segment, and the path is cut at the separator
  found there.
\<close>

definition path_dirname :: "string \<Rightarrow> string" where
  "path_dirname p =
     (if p = [] then ''.''
      else
        let hasRoot = (hd p = CHR ''/'');
            r = dropWhile (\<lambda>c. c \<noteq> CHR ''/'') (dropWhile (\<lambda>c. c = CHR ''/'') (rev (tl p)))
        in if r = [] then (if hasRoot then ''/'' else ''.'')
           else if hasRoot \<and> length r = 1 then ''//''
           else take (length r) p)"

fun commonPrefix :: "string list \<Rightarrow> string list \<Rightarrow> nat" where
  "commonPrefix (x # xs) (y # ys) = (if x = y then Suc (commonPrefix xs ys) else 0)"
| "commonPrefix _ _ = 0"

text \<open>
  \<open>path.relative(from, to)\<close>: both are resolved, the common leading segments are
  dropped, and one \<open>..\<close> stands for every remaining segment of \<open>from\<close>.
\<close>

definition path_relative :: "string \<Rightarrow> string \<Rightarrow> string \<Rightarrow> string" where
  "path_relative cwd from to =
     (if from = to then []
      else
        let fs = filter (\<lambda>x. x \<noteq> []) (splitSlash (path_resolve cwd from));
            ts = filter (\<lambda>x. x \<noteq> []) (splitSlash (path_resolve cwd to));
            n = commonPrefix fs ts
        in js_join ''/'' (replicate (length fs - n) ''..'' @ drop n ts))"

subsection \<open>Constants and configuration\<close>

definition AGENTS_FILENAMES :: "string list" where
  "AGENTS_FILENAMES = [''AGENTS.md'', ''CLAUDE.md'', ''CLA.md'']"

definition CONTEXT_SEPARATOR :: string where
  "CONTEXT_SEPARATOR = [CHR 0x0A, CHR 0x0A] @ ''---'' @ [CHR 0x0A, CHR 0x0A]"

definition MAX_CONTEXT_SIZE :: int where
  "MAX_CONTEXT_SIZE = 2000"

definition MAX_CACHED_SESSIONS :: nat where
  "MAX_CACHED_SESSIONS = 100"

record ProgressiveContextConfig =
  enabled :: bool
  maxContextSize :: int
  filenames :: "string list"
  excludeRoot :: bool

subsection \<open>Fragment size bounding: \<open>truncateContent\<close>\<close>

definition paragraphBreak :: string where
  "paragraphBreak = [CHR 0x0A, CHR 0x0A]"

definition ruleLine :: string where
  "ruleLine = [CHR 0x0A] @ ''---'' @ [CHR 0x0A]"

text \<open>
  The note appended to a truncated fragment; it names the path relative to the root.
  \<open>path.relative\<close> resolves its arguments, so the functions that call it take
  \<open>process.cwd()\<close> as their first argument \<open>cwd\<close>.
\<close>

definition truncationNote :: "string \<Rightarrow> string \<Rightarrow> string \<Rightarrow> string" where
  "truncationNote cwd rootDir filePath =
     [CHR 0x0A, CHR 0x0A] @ ''[Note: Content truncated. Read full file: ''
       @ path_relative cwd rootDir filePath @ '']''"

text \<open>
  \<open>lastBoundary > maxSize * 0.8\<close> compares an integer with four fifths of an integer;
  it is written without division as \<open>5 * lastBoundary > 4 * maxSize\<close>.
\<close>

definition truncateContent :: "string \<Rightarrow> string \<Rightarrow> int \<Rightarrow> string \<Rightarrow> string \<Rightarrow> string" where
  "truncateContent cwd content maxSize filePath rootDir =
     (if int (length content) \<le> maxSize then content
      else
        let truncated = slice0 content maxSize;
            lastBoundary = max (lastIndexOf truncated paragraphBreak) (lastIndexOf truncated ruleLine);
            note = truncationNote cwd rootDir filePath
        in if 5 * lastBoundary > 4 * maxSize then slice0 truncated lastBoundary @ note
           else truncated @ note)"

subsection \<open>The session table\<close>

text \<open>
  \<open>sessionCaches\<close> is a \<open>Map<string, SessionCache>\<close>. A JavaScript \<open>Map\<close> iterates in
  insertion order, and the eviction depends on that order, so the table is an association
  list whose order is the insertion order. \<open>injectedPaths\<close> is a \<open>Set<string>\<close>, a
  duplicate-free list in insertion order.
\<close>

record SessionCache =
  injectedPaths :: "string list"

type_synonym SessionTable = "(string \<times> SessionCache) list"

definition map_has :: "SessionTable \<Rightarrow> string \<Rightarrow> bool" where
  "map_has m k = (k \<in> set (map fst m))"

definition map_delete :: "SessionTable \<Rightarrow> string \<Rightarrow> SessionTable" where
  "map_delete m k = filter (\<lambda>e. fst e \<noteq> k) m"

text \<open>\<open>m.set(k, v)\<close>: a present key keeps its position, a new key goes to the end.\<close>

definition map_set :: "SessionTable \<Rightarrow> string \<Rightarrow> SessionCache \<Rightarrow> SessionTable" where
  "map_set m k v =
     (if map_has m k then map (\<lambda>e. if fst e = k then (k, v) else e) m else m @ [(k, v)])"

definition set_add :: "string list \<Rightarrow> string \<Rightarrow> string list" where
  "set_add xs x = (if x \<in> set xs then xs else xs @ [x])"

text \<open>
  \<open>getSessionCache\<close> returns the session's entry and the table as it leaves it.
  \<open>sessionCaches.keys().next().value\<close> is the first key of the table. The second
  \<open>has\<close> test and the final \<open>get\<close> are one lookup in the table left by the eviction.
\<close>

definition getSessionCache :: "string \<Rightarrow> SessionTable \<Rightarrow> SessionCache \<times> SessionTable" where
  "getSessionCache sessionID sessionCaches =
     (let caches1 =
            (if MAX_CACHED_SESSIONS \<le> length sessionCaches \<and> \<not> map_has sessionCaches sessionID
             then (case sessionCaches of [] \<Rightarrow> sessionCaches
                   | (firstKey, _) # _ \<Rightarrow> map_delete sessionCaches firstKey)
             else sessionCaches)
      in case map_of caches1 sessionID of
           Some cache \<Rightarrow> (cache, caches1)
         | None \<Rightarrow> (\<lparr>injectedPaths = []\<rparr>, map_set caches1 sessionID \<lparr>injectedPaths = []\<rparr>))"

text \<open>\<open>cache.injectedPaths.has(p)\<close> for the entry of a session; an untracked session has none.\<close>

definition wasInjected :: "SessionTable \<Rightarrow> string \<Rightarrow> string \<Rightarrow> bool" where
  "wasInjected sessionCaches sessionID p =
     (case map_of sessionCaches sessionID of None \<Rightarrow> False
      | Some cache \<Rightarrow> p \<in> set (injectedPaths cache))"

text \<open>
  The operations the extension performs on the table: a lookup (the read hook and the
  \<open>/context\<close> command), the insertion of a path into a tracked session's set (the read
  hook, right after its lookup), and the removal at \<open>session_shutdown\<close>.
\<close>

datatype table_op = GetSessionCache string | AddPath string string | Shutdown string

fun apply_table_op :: "SessionTable \<Rightarrow> table_op \<Rightarrow> SessionTable" where
  "apply_table_op m (GetSessionCache sid) = snd (getSessionCache sid m)"
| "apply_table_op m (AddPath sid p) =
     (case map_of m sid of None \<Rightarrow> m
      | Some cache \<Rightarrow> map_set m sid (cache\<lparr>injectedPaths := set_add (injectedPaths cache) p\<rparr>))"
| "apply_table_op m (Shutdown sid) = map_delete m sid"

definition run_table_ops :: "table_op list \<Rightarrow> SessionTable" where
  "run_table_ops ops = foldl apply_table_op [] ops"

subsection \<open>The file system\<close>

text \<open>
  \<open>fs.statSync\<close> and \<open>fs.readFileSync\<close> either throw or return. The two are separate
  fields, so a file that disappears between the test and the read is a file system whose
  \<open>statSync\<close> returns and whose \<open>readFileSync\<close> throws.
\<close>

datatype 'a attempt = Throws | Returns 'a

record Stats =
  isFile :: bool

record FileSystem =
  statSync :: "string \<Rightarrow> Stats attempt"
  readFileSync :: "string \<Rightarrow> string attempt"

subsection \<open>The hierarchy walk: \<open>findAgentsFilesUp\<close>\<close>

text \<open>
  The inner \<open>for\<close> loop over the candidate filenames of one directory. It returns the
  match, if any, and the paths it passed to \<open>fs.statSync\<close>, in order.
\<close>

fun scanFilenames :: "FileSystem \<Rightarrow> string \<Rightarrow> string list \<Rightarrow> string option \<times> string list" where
  "scanFilenames fs current [] = (None, [])"
| "scanFilenames fs current (filename # rest) =
     (let filePath = path_join current filename
      in case statSync fs filePath of
           Returns stat \<Rightarrow>
             if isFile stat then (Some filePath, [filePath])
             else (case scanFilenames fs current rest of (m, t) \<Rightarrow> (m, filePath # t))
         | Throws \<Rightarrow> (case scanFilenames fs current rest of (m, t) \<Rightarrow> (m, filePath # t)))"

text \<open>
  The effect of the scan of one directory on the state of the walk: the array \<open>found\<close>
  gains the match, the list of tested paths gains the paths tested.
\<close>

definition scanDir ::
  "FileSystem \<Rightarrow> ProgressiveContextConfig \<Rightarrow> string \<Rightarrow> string list \<times> string list
     \<Rightarrow> string list \<times> string list" where
  "scanDir fs config current acc =
     (case scanFilenames fs current (filenames config) of
        (m, t) \<Rightarrow> (fst acc @ (case m of None \<Rightarrow> [] | Some p \<Rightarrow> [p]), snd acc @ t))"

text \<open>
  The \<open>while (true)\<close> loop. Its state is \<open>current\<close>, the array \<open>found\<close> and the list of
  paths tested so far. Nothing in the loop bounds the number of iterations, so the
  function is partial: \<open>None\<close> stands for a walk that never returns.
\<close>

partial_function (option) findLoop ::
  "FileSystem \<Rightarrow> ProgressiveContextConfig \<Rightarrow> string \<Rightarrow> string \<Rightarrow> string list \<times> string list
     \<Rightarrow> (string list \<times> string list) option" where
  "findLoop fs config rootDir current acc =
     (let isAtRoot = (current = rootDir);
          isAboveRoot = (\<not> startsWith current rootDir \<and> current \<noteq> rootDir);
          acc1 = (if \<not> isAtRoot \<or> \<not> excludeRoot config then scanDir fs config current acc else acc)
      in if isAtRoot \<or> isAboveRoot then Some acc1
         else let parent = path_dirname current
              in if parent = current then Some acc1
                 else findLoop fs config rootDir parent acc1)"

declare findLoop.simps [code]

text \<open>The walk from \<open>startDir\<close>: the matches in discovery order and the tested paths.\<close>

definition walkUp ::
  "FileSystem \<Rightarrow> string \<Rightarrow> string \<Rightarrow> ProgressiveContextConfig \<Rightarrow> (string list \<times> string list) option" where
  "walkUp fs startDir rootDir config = findLoop fs config rootDir startDir ([], [])"

definition findAgentsFilesUp ::
  "FileSystem \<Rightarrow> string \<Rightarrow> string \<Rightarrow> ProgressiveContextConfig \<Rightarrow> string list option" where
  "findAgentsFilesUp fs startDir rootDir config =
     map_option (\<lambda>r. rev (fst r)) (walkUp fs startDir rootDir config)"

subsection \<open>The read hook: the \<open>tool_result\<close> handler\<close>

text \<open>
  The host: \<open>pi.workspaceRoot\<close>, which may be undefined, and \<open>process.cwd()\<close>.
  \<open>pi.workspaceRoot || process.cwd()\<close> falls back on an undefined or empty root.
\<close>

record Host =
  workspaceRoot :: "string option"
  cwd :: string

definition rootDirOf :: "Host \<Rightarrow> string" where
  "rootDirOf host =
     (case workspaceRoot host of None \<Rightarrow> cwd host
      | Some r \<Rightarrow> if r = [] then cwd host else r)"

text \<open>The value of \<open>event.input?.path\<close>: a string, or anything else.\<close>

datatype js_value = JUndefined | JString string | JOther

datatype content_block = TextContent string | OtherContent string

record 'd ToolResult =
  content :: "content_block list"
  details :: 'd
  isError :: bool

record 'd ToolResultEvent = "'d ToolResult" +
  toolName :: string
  input_path :: js_value

datatype console_call = ConsoleLog string | ConsoleWarn string | ConsoleError string

text \<open>
  The \<open>for\<close> loop over \<open>agentsFiles\<close> (lines 170 to 185). Its state is the array
  \<open>contexts\<close>, the set \<open>cache.injectedPaths\<close> and the console output. The exception
  object that \<open>console.error\<close> prints after its message is not modelled.
\<close>

fun injectLoop ::
  "FileSystem \<Rightarrow> Host \<Rightarrow> ProgressiveContextConfig \<Rightarrow> string \<Rightarrow> string list
     \<Rightarrow> string list \<times> string list \<times> console_call list
     \<Rightarrow> string list \<times> string list \<times> console_call list" where
  "injectLoop fs host config resolvedRoot [] st = st"
| "injectLoop fs host config resolvedRoot (agentsPath # rest) (contexts, injected, out) =
     (if agentsPath \<in> set injected
      then injectLoop fs host config resolvedRoot rest (contexts, injected, out)
      else case readFileSync fs agentsPath of
             Returns fileContent \<Rightarrow>
               (let truncated = truncateContent (cwd host) fileContent (maxContextSize config)
                                  agentsPath resolvedRoot;
                    relativePath = path_relative (cwd host) resolvedRoot agentsPath
                in injectLoop fs host config resolvedRoot rest
                     (contexts @ [''[Directory Context: '' @ relativePath @ '']'' @ [CHR 0x0A] @ truncated],
                      set_add injected agentsPath, out))
           | Throws \<Rightarrow>
               injectLoop fs host config resolvedRoot rest
                 (contexts, injected,
                  out @ [ConsoleError (''[progressive-context] Error reading '' @ agentsPath @ '':'')]))"

text \<open>
  What one invocation of the handler leaves behind: the value it returns (\<open>None\<close> is
  \<open>undefined\<close>, the result is left as it is), the session table, the console output, and
  the final values of the local arrays \<open>agentsFiles\<close> and \<open>contexts\<close> (empty where the
  handler returns before it fills them).
\<close>

record 'd HandlerOutcome =
  returned :: "'d ToolResult option"
  sessionCaches :: SessionTable
  console :: "console_call list"
  agentsFiles :: "string list"
  contexts :: "string list"

definition skipped :: "SessionTable \<Rightarrow> console_call list \<Rightarrow> 'd HandlerOutcome" where
  "skipped caches out =
     \<lparr>returned = None, sessionCaches = caches, console = out, agentsFiles = [], contexts = []\<rparr>"

text \<open>
  The handler registered on \<open>tool_result\<close>. The result is \<open>None\<close> only if the walk of
  \<open>findAgentsFilesUp\<close> does not return.
\<close>

definition tool_result_handler ::
  "FileSystem \<Rightarrow> Host \<Rightarrow> ProgressiveContextConfig \<Rightarrow> string \<Rightarrow> SessionTable
     \<Rightarrow> 'd ToolResultEvent \<Rightarrow> 'd HandlerOutcome option" where
  "tool_result_handler fs host config sessionID caches event =
     (if toolName event \<noteq> ''read'' then Some (skipped caches [])
      else case input_path event of
        JUndefined \<Rightarrow> Some (skipped caches [])
      | JOther \<Rightarrow> Some (skipped caches [])
      | JString filePath \<Rightarrow>
          if filePath = [] then Some (skipped caches [])
          else
            let rootDir = rootDirOf host;
                absolutePath = (if path_isAbsolute filePath then filePath
                                else path_join rootDir filePath);
                resolvedPath = path_resolve (cwd host) absolutePath;
                resolvedRoot = path_resolve (cwd host) rootDir
            in if \<not> startsWith resolvedPath resolvedRoot
               then Some (skipped caches
                      [ConsoleWarn (''[progressive-context] Path '' @ filePath
                                      @ '' outside workspace, skipping'')])
               else
                 let dir = path_dirname absolutePath;
                     (cache, caches1) = getSessionCache sessionID caches
                 in (case findAgentsFilesUp fs dir resolvedRoot config of
                      None \<Rightarrow> None
                    | Some files \<Rightarrow>
                        if files = [] then Some (skipped caches1 [])
                        else
                          let (ctxs, injected, out) =
                                injectLoop fs host config resolvedRoot files
                                  ([], injectedPaths cache, []);
                              caches2 = map_set caches1 sessionID (cache\<lparr>injectedPaths := injected\<rparr>)
                          in if ctxs \<noteq> []
                             then Some
                               \<lparr>returned = Some
                                  \<lparr>content = content event
                                      @ [TextContent (CONTEXT_SEPARATOR @ js_join CONTEXT_SEPARATOR ctxs)],
                                   details = details event,
                                   isError = isError event\<rparr>,
                                sessionCaches = caches2,
                                console = out @
                                  [ConsoleLog (''[progressive-context] Injected ''
                                     @ string_of_nat (length ctxs) @ '' context file(s) for '' @ filePath)],
                                agentsFiles = files,
                                contexts = ctxs\<rparr>
                             else Some
                               \<lparr>returned = None, sessionCaches = caches2, console = out,
                                agentsFiles = files, contexts = ctxs\<rparr>))"

text \<open>The handler registered on \<open>session_shutdown\<close>.\<close>

definition session_shutdown_handler :: "string \<Rightarrow> SessionTable \<Rightarrow> SessionTable \<times> console_call list" where
  "session_shutdown_handler sessionID caches =
     (map_delete caches sessionID,
      [ConsoleLog (''[progressive-context] Cleaned up session '' @ sessionID)])"

subsection \<open>The manual tool: \<open>inject_context\<close>\<close>

record ExecuteResult =
  resultContent :: "content_block list"
  resultIsError :: "bool option"

fun manualLoop :: "FileSystem \<Rightarrow> Host \<Rightarrow> ProgressiveContextConfig \<Rightarrow> string \<Rightarrow> string list \<Rightarrow> string list" where
  "manualLoop fs host config resolvedRoot [] = []"
| "manualLoop fs host config resolvedRoot (agentsPath # rest) =
     (case readFileSync fs agentsPath of
        Returns fileContent \<Rightarrow>
          (''['' @ path_relative (cwd host) resolvedRoot agentsPath @ '']:'' @ [CHR 0x0A]
             @ truncateContent (cwd host) fileContent (maxContextSize config) agentsPath resolvedRoot)
      | Throws \<Rightarrow> ''[Error reading '' @ agentsPath @ '']'')
     # manualLoop fs host config resolvedRoot rest"

definition inject_context_execute ::
  "FileSystem \<Rightarrow> Host \<Rightarrow> ProgressiveContextConfig \<Rightarrow> string \<Rightarrow> ExecuteResult option" where
  "inject_context_execute fs host config dir =
     (let rootDir = rootDirOf host;
          resolvedRoot = path_resolve (cwd host) rootDir;
          absoluteDir = (if path_isAbsolute dir then path_resolve (cwd host) dir
                         else path_join resolvedRoot dir)
      in if \<not> startsWith absoluteDir resolvedRoot
         then Some \<lparr>resultContent = [TextContent (''Error: Directory '' @ dir @ '' is outside the workspace'')],
                    resultIsError = Some True\<rparr>
         else case findAgentsFilesUp fs absoluteDir resolvedRoot (config\<lparr>excludeRoot := False\<rparr>) of
                None \<Rightarrow> None
              | Some files \<Rightarrow>
                  if files = []
                  then Some \<lparr>resultContent = [TextContent (''No AGENTS.md files found in '' @ dir
                                                 @ '' or parent directories'')],
                             resultIsError = None\<rparr>
                  else Some \<lparr>resultContent =
                               [TextContent (js_join CONTEXT_SEPARATOR
                                  (manualLoop fs host config resolvedRoot files))],
                             resultIsError = None\<rparr>)"

text \<open>
  For the statements about boundaries: \<open>p\<close> occurs in \<open>s\<close> at index \<open>i\<close>, wholly
  inside \<open>s\<close>; a boundary of a window is an occurrence of one of the two patterns the
  function searches for; the last boundary is the greater of the two last indices.
\<close>

definition occursAt :: "string \<Rightarrow> string \<Rightarrow> nat \<Rightarrow> bool" where
  "occursAt s p i = (i + length p \<le> length s \<and> take (length p) (drop i s) = p)"

definition boundaryAt :: "string \<Rightarrow> nat \<Rightarrow> bool" where
  "boundaryAt s i = (occursAt s paragraphBreak i \<or> occursAt s ruleLine i)"

definition lastBoundaryOf :: "string \<Rightarrow> int" where
  "lastBoundaryOf s = max (lastIndexOf s paragraphBreak) (lastIndexOf s ruleLine)"

text \<open>
  Two sample fragments of 48 characters: 33 letters, then a line of three hyphens
  (\<open>sampleRule\<close>) or of four hyphens (\<open>sampleFour\<close>) between line breaks, then more text.
\<close>

definition sampleRule :: string where
  "sampleRule = replicate 33 CHR ''a'' @ [CHR 0x0A] @ ''---'' @ [CHR 0x0A] @ replicate 10 CHR ''b''"

definition sampleFour :: string where
  "sampleFour = replicate 33 CHR ''a'' @ [CHR 0x0A] @ ''----'' @ [CHR 0x0A] @ replicate 9 CHR ''b''"


subsection \<open>Auxiliary notions for the statements about the session table\<close>

text \<open>
  The invariant of the table: every session has one entry, and there are at most
  \<open>MAX_CACHED_SESSIONS\<close> entries.
\<close>

definition table_ok :: "SessionTable \<Rightarrow> bool" where
  "table_ok m = (distinct (map fst m) \<and> length m \<le> MAX_CACHED_SESSIONS)"

text \<open>
  Sample session identifiers \<open>0\<close>, \<open>1\<close>, \<open>2\<close>, ... and a sample history: a hundred
  sessions are looked up, then a fragment is delivered to the first of them.
\<close>

definition sessionNames :: "nat \<Rightarrow> string list" where
  "sessionNames n = map string_of_nat [0..<n]"

definition sampleOps :: "table_op list" where
  "sampleOps = map GetSessionCache (sessionNames 100) @ [AddPath ''0'' ''/proj/src/AGENTS.md'']"

subsection \<open>Auxiliary notions for the statements about the walk\<close>

text \<open>
  The measure that decreases along the walk: a path that is its own parent has measure
  zero, every other path one more than its length.
\<close>

definition dirMeasure :: "string \<Rightarrow> nat" where
  "dirMeasure p = (if p = ''.'' \<or> p = ''/'' then 0 else Suc (length p))"

text \<open>\<open>fs.statSync(p).isFile()\<close> inside the \<open>try\<close>: an exception counts as no file.\<close>

definition isFileAt :: "FileSystem \<Rightarrow> string \<Rightarrow> bool" where
  "isFileAt fs p = (case statSync fs p of Returns stat \<Rightarrow> isFile stat | Throws \<Rightarrow> False)"

text \<open>
  Absolute canonical paths, which the resolver expects: the path of a list of segments.
  A segment is not empty and has no separator; a simple name is a segment other than
  \<open>.\<close> and \<open>..\<close>.
\<close>

definition abs_path :: "string list \<Rightarrow> string" where
  "abs_path segs = (if segs = [] then ''/'' else concat (map (\<lambda>s. CHR ''/'' # s) segs))"

definition slashFree :: "string \<Rightarrow> bool" where
  "slashFree s = (s \<noteq> [] \<and> CHR ''/'' \<notin> set s)"

definition simpleName :: "string \<Rightarrow> bool" where
  "simpleName s = (slashFree s \<and> s \<noteq> ''.'' \<and> s \<noteq> ''..'')"

text \<open>
  The scans of the directories strictly below the root \<open>rs\<close>, from the directory
  \<open>rs @ rev below\<close> upwards.
\<close>

fun climb ::
  "FileSystem \<Rightarrow> ProgressiveContextConfig \<Rightarrow> string list \<Rightarrow> string list
     \<Rightarrow> string list \<times> string list \<Rightarrow> string list \<times> string list" where
  "climb fs config rs [] acc = acc"
| "climb fs config rs (d # up) acc =
     climb fs config rs up (scanDir fs config (abs_path (rs @ rev (d # up))) acc)"

text \<open>
  A sample workspace \<open>/proj\<close>: both \<open>AGENTS.md\<close> and \<open>CLAUDE.md\<close> in \<open>/proj/src\<close>, an
  \<open>AGENTS.md\<close> at the root, a directory named \<open>AGENTS.md\<close> in \<open>/proj/src/api\<close>, and
  outside the workspace a file \<open>/workspace/AGENTS.md\<close>.
\<close>

definition sampleFs :: FileSystem where
  "sampleFs =
     \<lparr>statSync = (\<lambda>p.
          if p \<in> set [''/proj/AGENTS.md'', ''/proj/src/AGENTS.md'', ''/proj/src/CLAUDE.md'',
                       ''/workspace/AGENTS.md'']
          then Returns \<lparr>isFile = True\<rparr>
          else if p = ''/proj/src/api/AGENTS.md'' then Returns \<lparr>isFile = False\<rparr>
          else Throws),
      readFileSync = (\<lambda>p.
          if p = ''/proj/AGENTS.md'' then Returns ''root-doc''
          else if p = ''/proj/src/AGENTS.md'' then Returns ''src-doc''
          else if p = ''/workspace/AGENTS.md'' then Returns ''other-doc''
          else Throws)\<rparr>"

definition sampleConfig :: ProgressiveContextConfig where
  "sampleConfig =
     \<lparr>enabled = True, maxContextSize = MAX_CONTEXT_SIZE,
      filenames = [''AGENTS.md'', ''CLAUDE.md''], excludeRoot = True\<rparr>"

subsection \<open>Auxiliary notions for the statements about the read hook\<close>

text \<open>
  The handler's locals \<open>absolutePath\<close>, \<open>resolvedPath\<close> and \<open>resolvedRoot\<close> as functions
  of the host and of the path argument.
\<close>

definition absolutePathOf :: "Host \<Rightarrow> string \<Rightarrow> string" where
  "absolutePathOf host filePath =
     (if path_isAbsolute filePath then filePath else path_join (rootDirOf host) filePath)"

definition resolvedPathOf :: "Host \<Rightarrow> string \<Rightarrow> string" where
  "resolvedPathOf host filePath = path_resolve (cwd host) (absolutePathOf host filePath)"

definition resolvedRootOf :: "Host \<Rightarrow> string" where
  "resolvedRootOf host = path_resolve (cwd host) (rootDirOf host)"

text \<open>The text pushed on \<open>contexts\<close> for a fragment: the header line and the bounded text.\<close>

definition directoryContext :: "FileSystem \<Rightarrow> Host \<Rightarrow> ProgressiveContextConfig \<Rightarrow> string \<Rightarrow> string" where
  "directoryContext fs host config agentsPath =
     ''[Directory Context: '' @ path_relative (cwd host) (resolvedRootOf host) agentsPath @ '']''
       @ [CHR 0x0A]
       @ (case readFileSync fs agentsPath of
            Returns fileContent \<Rightarrow>
              truncateContent (cwd host) fileContent (maxContextSize config) agentsPath
                (resolvedRootOf host)
          | Throws \<Rightarrow> [])"

definition readable :: "FileSystem \<Rightarrow> string \<Rightarrow> bool" where
  "readable fs p = (readFileSync fs p \<noteq> Throws)"

text \<open>The paths delivered to a session, in the order of delivery.\<close>

definition deliveredTo :: "SessionTable \<Rightarrow> string \<Rightarrow> string list" where
  "deliveredTo caches sessionID =
     (case map_of caches sessionID of None \<Rightarrow> [] | Some cache \<Rightarrow> injectedPaths cache)"

fun isWarn :: "console_call \<Rightarrow> bool" where
  "isWarn (ConsoleWarn _) = True"
| "isWarn _ = False"

text \<open>
  Inside the directory \<open>root\<close>, as opposed to the textual test of the handler: the root
  itself, or a path that continues the root with a separator.
\<close>

definition insideDir :: "string \<Rightarrow> string \<Rightarrow> bool" where
  "insideDir root p = (p = root \<or> startsWith p (root @ ''/''))"

text \<open>Sample hosts and a sample read event.\<close>

definition projHost :: Host where
  "projHost = \<lparr>workspaceRoot = Some ''/proj'', cwd = ''/home/user''\<rparr>"

definition workHost :: Host where
  "workHost = \<lparr>workspaceRoot = Some ''/work'', cwd = ''/home/user''\<rparr>"

definition readEvent :: "string \<Rightarrow> unit ToolResultEvent" where
  "readEvent p =
     \<lparr>content = [TextContent ''file body'', OtherContent ''image''], details = (), isError = False,
      toolName = ''read'', input_path = JString p\<rparr>"

text \<open>
  The sample workspace a moment later: \<open>/proj/src/AGENTS.md\<close> is still there for
  \<open>statSync\<close>, but reading it throws.
\<close>

definition vanishedFs :: FileSystem where
  "vanishedFs =
     sampleFs\<lparr>readFileSync := (\<lambda>p. if p = ''/proj/src/AGENTS.md'' then Throws
                                     else readFileSync sampleFs p)\<rparr>"

section \<open>Verification\<close>

subsection \<open>Fragment size bounding\<close>

lemma startsWith_drop_occursAt:
  "i + length p \<le> length s \<Longrightarrow> startsWith (drop i s) p = occursAt s p i"
  by (simp add: startsWith_def occursAt_def)

lemma lastIndexOfFrom_range: "- 1 \<le> lastIndexOfFrom s p k \<and> lastIndexOfFrom s p k \<le> int k"
  by (induction k) auto

lemma lastIndexOfFrom_hit:
  "0 \<le> lastIndexOfFrom s p k \<Longrightarrow> startsWith (drop (nat (lastIndexOfFrom s p k)) s) p"
  by (induction k) (auto split: if_splits simp: nat_add_distrib)

lemma lastIndexOfFrom_greatest:
  "j \<le> k \<Longrightarrow> startsWith (drop j s) p \<Longrightarrow> int j \<le> lastIndexOfFrom s p k"
proof (induction k)
  case 0
  then show ?case by simp
next
  case (Suc k)
  show ?case
  proof (cases "startsWith (drop (Suc k) s) p")
    case True
    with Suc.prems show ?thesis by simp
  next
    case False
    with Suc.prems have "j \<le> k" by (cases "j = Suc k") auto
    with Suc False show ?thesis by simp
  qed
qed

lemma lastIndexOf_range: "- 1 \<le> lastIndexOf s p \<and> lastIndexOf s p + int (length p) \<le> int (length s) \<or> lastIndexOf s p = - 1"
  using lastIndexOfFrom_range [of s p "length s - length p"]
  by (auto simp: lastIndexOf_def)

lemma lastIndexOf_lower: "- 1 \<le> lastIndexOf s p"
  using lastIndexOfFrom_range [of s p "length s - length p"]
  by (auto simp: lastIndexOf_def)

lemma lastIndexOf_upper: "lastIndexOf s p \<le> int (length s)"
  using lastIndexOfFrom_range [of s p "length s - length p"]
  by (auto simp: lastIndexOf_def)

lemma lastIndexOf_hit:
  assumes "0 \<le> lastIndexOf s p"
  shows "occursAt s p (nat (lastIndexOf s p))"
proof -
  from assms have le: "length p \<le> length s" and eq: "lastIndexOf s p = lastIndexOfFrom s p (length s - length p)"
    by (auto simp: lastIndexOf_def split: if_splits)
  let ?i = "nat (lastIndexOf s p)"
  from lastIndexOfFrom_range [of s p "length s - length p"] eq assms le
  have "?i + length p \<le> length s" by auto
  moreover from lastIndexOfFrom_hit [of s p "length s - length p"] assms eq
  have "startsWith (drop ?i s) p" by simp
  ultimately show ?thesis by (simp add: startsWith_drop_occursAt)
qed

lemma lastIndexOf_greatest:
  assumes "occursAt s p j"
  shows "int j \<le> lastIndexOf s p"
proof -
  from assms have le: "j + length p \<le> length s" by (simp add: occursAt_def)
  then have "j \<le> length s - length p" by simp
  moreover from assms le have "startsWith (drop j s) p" by (simp add: startsWith_drop_occursAt)
  ultimately have "int j \<le> lastIndexOfFrom s p (length s - length p)"
    by (rule lastIndexOfFrom_greatest)
  with le show ?thesis by (simp add: lastIndexOf_def)
qed

lemma lastBoundaryOf_hit:
  "0 \<le> lastBoundaryOf s \<Longrightarrow> boundaryAt s (nat (lastBoundaryOf s))"
  unfolding lastBoundaryOf_def boundaryAt_def
  using lastIndexOf_hit [of s paragraphBreak] lastIndexOf_hit [of s ruleLine]
  by (auto simp: max_def split: if_splits)

lemma lastBoundaryOf_greatest:
  "boundaryAt s j \<Longrightarrow> int j \<le> lastBoundaryOf s"
  unfolding lastBoundaryOf_def boundaryAt_def
  using lastIndexOf_greatest [of s paragraphBreak j] lastIndexOf_greatest [of s ruleLine j]
  by auto

lemma lastBoundaryOf_upper: "lastBoundaryOf s \<le> int (length s)"
  unfolding lastBoundaryOf_def using lastIndexOf_upper [of s paragraphBreak] lastIndexOf_upper [of s ruleLine]
  by auto

lemma truncateContent_unfold:
  "truncateContent wd fileContent maxSize filePath rootDir =
     (if int (length fileContent) \<le> maxSize then fileContent
      else if 4 * maxSize < 5 * lastBoundaryOf (slice0 fileContent maxSize)
           then slice0 (slice0 fileContent maxSize) (lastBoundaryOf (slice0 fileContent maxSize))
                  @ truncationNote wd rootDir filePath
           else slice0 fileContent maxSize @ truncationNote wd rootDir filePath)"
  by (simp add: truncateContent_def lastBoundaryOf_def Let_def)

lemma truncateContent_long:
  assumes "0 \<le> maxSize" "maxSize < int (length fileContent)"
  shows "truncateContent wd fileContent maxSize filePath rootDir =
           take (nat (if 4 * maxSize < 5 * lastBoundaryOf (take (nat maxSize) fileContent)
                      then lastBoundaryOf (take (nat maxSize) fileContent) else maxSize)) fileContent
           @ truncationNote wd rootDir filePath"
proof -
  let ?t = "take (nat maxSize) fileContent"
  have len: "int (length ?t) = maxSize" using assms by simp
  show ?thesis
  proof (cases "4 * maxSize < 5 * lastBoundaryOf ?t")
    case True
    with assms have pos: "0 \<le> lastBoundaryOf ?t" by simp
    have "lastBoundaryOf ?t \<le> maxSize" using lastBoundaryOf_upper [of ?t] len by simp
    then have "take (nat (lastBoundaryOf ?t)) ?t = take (nat (lastBoundaryOf ?t)) fileContent"
      by (simp add: min_def)
    with True pos assms show ?thesis
      by (simp add: truncateContent_unfold slice0_def)
  next
    case False
    with assms show ?thesis
      by (simp add: truncateContent_unfold slice0_def)
  qed
qed

text \<open>
  Claim C4. For every fragment text and positive \<open>maxSize\<close>, \<open>truncateContent\<close> returns
  the text unchanged when its length is at most \<open>maxSize\<close>; otherwise it returns a kept
  part followed by the note, where the kept part is a prefix of the text of length at
  most \<open>maxSize\<close>, so the result is at most \<open>maxSize\<close> plus the length of the note long.
  The note depends on the root and the path of the fragment only, not on the text or on
  \<open>maxSize\<close>.
\<close>

theorem truncateContent_bound:
  assumes "0 < maxSize"
  shows "(if int (length fileContent) \<le> maxSize
          then truncateContent wd fileContent maxSize filePath rootDir = fileContent
          else \<exists>kept rest.
                 truncateContent wd fileContent maxSize filePath rootDir
                   = kept @ truncationNote wd rootDir filePath
               \<and> fileContent = kept @ rest
               \<and> int (length kept) \<le> maxSize
               \<and> int (length (truncateContent wd fileContent maxSize filePath rootDir))
                   \<le> maxSize + int (length (truncationNote wd rootDir filePath)))"
proof (cases "int (length fileContent) \<le> maxSize")
  case True
  then show ?thesis by (simp add: truncateContent_def)
next
  case False
  let ?t = "take (nat maxSize) fileContent"
  define cut where "cut = nat (if 4 * maxSize < 5 * lastBoundaryOf ?t then lastBoundaryOf ?t else maxSize)"
  define kept where "kept = take cut fileContent"
  from False assms have long: "0 \<le> maxSize" "maxSize < int (length fileContent)" by auto
  have 1: "truncateContent wd fileContent maxSize filePath rootDir = kept @ truncationNote wd rootDir filePath"
    using truncateContent_long [OF long] by (simp add: kept_def cut_def)
  have 2: "fileContent = kept @ drop cut fileContent" by (simp add: kept_def)
  have "int (length ?t) = maxSize" using long by simp
  with lastBoundaryOf_upper [of ?t] have "lastBoundaryOf ?t \<le> maxSize" by simp
  then have "int cut \<le> maxSize" using assms by (auto simp: cut_def)
  moreover have "length kept \<le> cut" by (simp add: kept_def)
  ultimately have 3: "int (length kept) \<le> maxSize" by linarith
  have 4: "int (length (truncateContent wd fileContent maxSize filePath rootDir))
             \<le> maxSize + int (length (truncationNote wd rootDir filePath))"
    using 1 3 by simp
  from 1 2 3 4 have "\<exists>kept rest.
                 truncateContent wd fileContent maxSize filePath rootDir
                   = kept @ truncationNote wd rootDir filePath
               \<and> fileContent = kept @ rest
               \<and> int (length kept) \<le> maxSize
               \<and> int (length (truncateContent wd fileContent maxSize filePath rootDir))
                   \<le> maxSize + int (length (truncationNote wd rootDir filePath))"
    by blast
  then show ?thesis unfolding if_not_P [OF False] .
qed

theorem truncateContent_bound_witness:
  "\<exists>kept rest.
      truncateContent ''/'' sampleRule 40 ''/w/d/AGENTS.md'' ''/w''
        = kept @ truncationNote ''/'' ''/w'' ''/w/d/AGENTS.md''
    \<and> sampleRule = kept @ rest
    \<and> int (length kept) \<le> 40
    \<and> int (length (truncateContent ''/'' sampleRule 40 ''/w/d/AGENTS.md'' ''/w''))
        \<le> 40 + int (length (truncationNote ''/'' ''/w'' ''/w/d/AGENTS.md''))"
proof -
  have pos: "(0::int) < 40" by simp
  have long: "\<not> int (length sampleRule) \<le> 40" by (simp add: sampleRule_def)
  from truncateContent_bound [OF pos, of sampleRule "''/''" "''/w/d/AGENTS.md''" "''/w''"]
  show ?thesis unfolding if_not_P [OF long] .
qed

text \<open>
  Claim C3, as the code has it. For every fragment text longer than \<open>maxSize\<close>
  (\<open>maxSize\<close> not negative), the window is the first \<open>maxSize\<close> characters, and a boundary
  is an occurrence, wholly inside the window, of two consecutive line breaks or of the
  exact sequence line break, three hyphens, line break. When some boundary starts at an
  index strictly greater than four fifths of \<open>maxSize\<close>, the text is cut at the last
  boundary of the window; otherwise it is cut at \<open>maxSize\<close>. The note follows the cut in
  both cases.
\<close>

theorem truncateContent_boundary:
  assumes "0 \<le> maxSize" "maxSize < int (length fileContent)"
  shows "(if \<exists>i. boundaryAt (take (nat maxSize) fileContent) i \<and> 4 * maxSize < 5 * int i
          then \<exists>j. boundaryAt (take (nat maxSize) fileContent) j
                 \<and> (\<forall>i. boundaryAt (take (nat maxSize) fileContent) i \<longrightarrow> i \<le> j)
                 \<and> truncateContent wd fileContent maxSize filePath rootDir
                     = take j fileContent @ truncationNote wd rootDir filePath
          else truncateContent wd fileContent maxSize filePath rootDir
                 = take (nat maxSize) fileContent @ truncationNote wd rootDir filePath)"
proof -
  let ?t = "take (nat maxSize) fileContent"
  let ?b = "lastBoundaryOf ?t"
  note eq = truncateContent_long [OF assms, of wd filePath rootDir]
  show ?thesis
  proof (cases "\<exists>i. boundaryAt ?t i \<and> 4 * maxSize < 5 * int i")
    case True
    then obtain i where i: "boundaryAt ?t i" "4 * maxSize < 5 * int i" by blast
    from lastBoundaryOf_greatest [OF i(1)] have ge: "int i \<le> ?b" .
    with i(2) have cut: "4 * maxSize < 5 * ?b" by simp
    from ge have pos: "0 \<le> ?b" by simp
    have "boundaryAt ?t (nat ?b)" using lastBoundaryOf_hit [OF pos] .
    moreover have "\<forall>k. boundaryAt ?t k \<longrightarrow> k \<le> nat ?b"
      using lastBoundaryOf_greatest [of ?t] by fastforce
    moreover have "truncateContent wd fileContent maxSize filePath rootDir
                     = take (nat ?b) fileContent @ truncationNote wd rootDir filePath"
      using eq cut by simp
    ultimately have "\<exists>j. boundaryAt ?t j \<and> (\<forall>i. boundaryAt ?t i \<longrightarrow> i \<le> j)
                 \<and> truncateContent wd fileContent maxSize filePath rootDir
                     = take j fileContent @ truncationNote wd rootDir filePath"
      by blast
    then show ?thesis unfolding if_P [OF True] .
  next
    case False
    have "\<not> 4 * maxSize < 5 * ?b"
    proof
      assume cut: "4 * maxSize < 5 * ?b"
      with assms have pos: "0 \<le> ?b" by simp
      from lastBoundaryOf_hit [OF pos] have "boundaryAt ?t (nat ?b)" .
      moreover from cut pos have "4 * maxSize < 5 * int (nat ?b)" by simp
      ultimately show False using False by blast
    qed
    with eq have "truncateContent wd fileContent maxSize filePath rootDir
                 = take (nat maxSize) fileContent @ truncationNote wd rootDir filePath" by simp
    then show ?thesis unfolding if_not_P [OF False] .
  qed
qed

theorem truncateContent_boundary_witness:
  "\<exists>j. boundaryAt (take (nat 40) sampleRule) j
      \<and> (\<forall>i. boundaryAt (take (nat 40) sampleRule) i \<longrightarrow> i \<le> j)
      \<and> truncateContent ''/'' sampleRule 40 ''/w/d/AGENTS.md'' ''/w''
          = take j sampleRule @ truncationNote ''/'' ''/w'' ''/w/d/AGENTS.md''"
proof -
  have h1: "(0::int) \<le> 40" by simp
  have h2: "(40::int) < int (length sampleRule)" by (simp add: sampleRule_def)
  have "boundaryAt (take (nat 40) sampleRule) 33 \<and> 4 * 40 < 5 * int 33" by code_simp
  then have b: "\<exists>i. boundaryAt (take (nat 40) sampleRule) i \<and> 4 * 40 < 5 * int i" ..
  from truncateContent_boundary [OF h1 h2, of "''/''" "''/w/d/AGENTS.md''" "''/w''"]
  show ?thesis unfolding if_P [OF b] .
qed

text \<open>
  The claim as it is written fails on a line of four hyphens. In \<open>sampleFour\<close> such a
  line, with its two line breaks, starts at index 33 and ends inside the window of 40
  characters, in its last fifth; the text is nevertheless cut at 40, not at 33.
\<close>

theorem truncateContent_four_hyphens_counterexample:
  "occursAt (take 40 sampleFour) ([CHR 0x0A] @ ''----'' @ [CHR 0x0A]) 33
   \<and> 4 * 40 < 5 * (33::int)
   \<and> 40 < length sampleFour
   \<and> truncateContent ''/'' sampleFour 40 ''/w/d/AGENTS.md'' ''/w''
       = take 40 sampleFour @ truncationNote ''/'' ''/w'' ''/w/d/AGENTS.md''
   \<and> truncateContent ''/'' sampleFour 40 ''/w/d/AGENTS.md'' ''/w''
       \<noteq> take 33 sampleFour @ truncationNote ''/'' ''/w'' ''/w/d/AGENTS.md''"
  by code_simp

subsection \<open>The session table\<close>

lemma map_has_map_of: "map_has m k \<longleftrightarrow> map_of m k \<noteq> None"
  by (simp add: map_has_def map_of_eq_None_iff)

lemma keys_map_delete: "map fst (map_delete m k) = filter (\<lambda>x. x \<noteq> k) (map fst m)"
  by (induction m) (auto simp: map_delete_def)

lemma keys_map_set_present: "map_has m k \<Longrightarrow> map fst (map_set m k v) = map fst m"
  by (induction m) (auto simp: map_set_def map_has_def)

lemma map_has_map_delete: "map_has (map_delete m k) x \<longleftrightarrow> map_has m x \<and> x \<noteq> k"
  by (auto simp: map_has_def keys_map_delete)

lemma getSessionCache_present:
  "map_has m sid \<Longrightarrow> snd (getSessionCache sid m) = m"
  by (auto simp: getSessionCache_def map_has_map_of Let_def)

lemma getSessionCache_room:
  "\<not> map_has m sid \<Longrightarrow> length m < MAX_CACHED_SESSIONS \<Longrightarrow>
     getSessionCache sid m = (\<lparr>injectedPaths = []\<rparr>, m @ [(sid, \<lparr>injectedPaths = []\<rparr>)])"
  by (auto simp: getSessionCache_def map_has_map_of map_set_def Let_def)

lemma getSessionCache_full:
  assumes "\<not> map_has m sid" "MAX_CACHED_SESSIONS \<le> length m"
  shows "getSessionCache sid m =
           (\<lparr>injectedPaths = []\<rparr>, map_delete m (fst (hd m)) @ [(sid, \<lparr>injectedPaths = []\<rparr>)])"
proof -
  from assms(2) obtain k v rest where m: "m = (k, v) # rest"
    by (cases m) (auto simp: MAX_CACHED_SESSIONS_def)
  from assms(1) have "\<not> map_has (map_delete m k) sid" by (simp add: map_has_map_delete)
  then have "map_of (map_delete m k) sid = None" by (simp add: map_has_map_of)
  moreover from this have "\<not> map_has (map_delete m k) sid" by (simp add: map_has_map_of)
  ultimately show ?thesis using assms m
    by (simp add: getSessionCache_def map_set_def)
qed

lemma getSessionCache_fresh:
  "\<not> map_has m sid \<Longrightarrow> fst (getSessionCache sid m) = \<lparr>injectedPaths = []\<rparr>"
  using getSessionCache_room [of m sid] getSessionCache_full [of m sid]
  by (cases "length m < MAX_CACHED_SESSIONS") auto

lemma map_delete_hd:
  assumes "distinct (map fst m)" "m \<noteq> []"
  shows "map_delete m (fst (hd m)) = tl m"
proof -
  from assms(2) obtain k v rest where m: "m = (k, v) # rest" by (cases m) auto
  with assms(1) have "\<forall>e\<in>set rest. fst e \<noteq> k" by force
  then have "filter (\<lambda>e. fst e \<noteq> k) rest = rest" by (simp add: filter_id_conv)
  with m show ?thesis by (simp add: map_delete_def)
qed

lemma table_ok_getSessionCache:
  assumes "table_ok m"
  shows "table_ok (snd (getSessionCache sid m))"
proof (cases "map_has m sid")
  case True
  with assms show ?thesis by (simp add: getSessionCache_present)
next
  case False
  show ?thesis
  proof (cases "length m < MAX_CACHED_SESSIONS")
    case True
    with False assms show ?thesis
      by (auto simp: getSessionCache_room table_ok_def map_has_def)
  next
    case full: False
    then have ne: "m \<noteq> []" by (auto simp: MAX_CACHED_SESSIONS_def)
    from assms have d: "distinct (map fst m)" by (simp add: table_ok_def)
    have "snd (getSessionCache sid m) = tl m @ [(sid, \<lparr>injectedPaths = []\<rparr>)]"
      using getSessionCache_full [of m sid] False full map_delete_hd [OF d ne] by simp
    moreover have "distinct (map fst (tl m))" using d by (simp add: map_tl distinct_tl)
    moreover have "sid \<notin> set (map fst (tl m))"
      using False ne by (cases m) (auto simp: map_has_def)
    moreover have "length (tl m) < length m" using ne by simp
    ultimately show ?thesis using assms by (auto simp: table_ok_def)
  qed
qed

lemma table_ok_map_delete:
  assumes "table_ok m"
  shows "table_ok (map_delete m k)"
proof -
  from assms have "distinct (map fst (map_delete m k))" by (simp add: table_ok_def keys_map_delete)
  moreover have "length (map_delete m k) \<le> length m" by (simp add: map_delete_def)
  ultimately show ?thesis using assms by (simp add: table_ok_def)
qed

lemma table_ok_map_set_present:
  "table_ok m \<Longrightarrow> map_has m k \<Longrightarrow> table_ok (map_set m k v)"
  using keys_map_set_present [of m k v] length_map [of fst "map_set m k v"] length_map [of fst m]
  by (simp add: table_ok_def del: length_map)

lemma table_ok_apply: "table_ok m \<Longrightarrow> table_ok (apply_table_op m x)"
proof (cases x)
  case (GetSessionCache sid)
  assume "table_ok m"
  with GetSessionCache show ?thesis by (simp add: table_ok_getSessionCache)
next
  case (AddPath sid p)
  assume ok: "table_ok m"
  show ?thesis
  proof (cases "map_of m sid")
    case None
    with AddPath ok show ?thesis by simp
  next
    case (Some c)
    then have "map_has m sid" by (simp add: map_has_map_of)
    with AddPath ok Some show ?thesis by (simp add: table_ok_map_set_present)
  qed
next
  case (Shutdown sid)
  assume "table_ok m"
  with Shutdown show ?thesis by (simp add: table_ok_map_delete)
qed

lemma table_ok_foldl: "table_ok m \<Longrightarrow> table_ok (foldl apply_table_op m ops)"
  by (induction ops arbitrary: m) (auto simp: table_ok_apply)

lemma table_ok_run: "table_ok (run_table_ops ops)"
  unfolding run_table_ops_def by (rule table_ok_foldl) (simp add: table_ok_def)

lemma run_snoc: "run_table_ops (ops @ [x]) = apply_table_op (run_table_ops ops) x"
  by (simp add: run_table_ops_def)

lemma keys_of_lookups:
  "distinct sids \<Longrightarrow>
     map fst (run_table_ops (map GetSessionCache sids)) = drop (length sids - MAX_CACHED_SESSIONS) sids"
proof (induction sids rule: rev_induct)
  case Nil
  show ?case by (simp add: run_table_ops_def)
next
  case (snoc s sids)
  let ?m = "run_table_ops (map GetSessionCache sids)"
  from snoc have keys: "map fst ?m = drop (length sids - MAX_CACHED_SESSIONS) sids" by simp
  from snoc.prems have "s \<notin> set sids" by simp
  with keys have fresh: "\<not> map_has ?m s" by (auto simp: map_has_def dest: in_set_dropD)
  have len: "length ?m = length sids - (length sids - MAX_CACHED_SESSIONS)"
    using keys length_map [of fst ?m] by (simp del: length_map)
  have ok: "table_ok ?m" by (rule table_ok_run)
  show ?case
  proof (cases "length sids < MAX_CACHED_SESSIONS")
    case True
    with len have "length ?m < MAX_CACHED_SESSIONS" by simp
    with fresh keys True show ?thesis
      by (simp add: run_snoc getSessionCache_room)
  next
    case False
    with len have full: "MAX_CACHED_SESSIONS \<le> length ?m" by (simp add: MAX_CACHED_SESSIONS_def)
    then have ne: "?m \<noteq> []" by (auto simp: MAX_CACHED_SESSIONS_def)
    from ok have d: "distinct (map fst ?m)" by (simp add: table_ok_def)
    have "snd (getSessionCache s ?m) = tl ?m @ [(s, \<lparr>injectedPaths = []\<rparr>)]"
      using getSessionCache_full [OF fresh full] map_delete_hd [OF d ne] by simp
    then have "map fst (run_table_ops (map GetSessionCache (sids @ [s]))) = tl (map fst ?m) @ [s]"
      by (simp add: run_snoc map_tl)
    also have "\<dots> = drop (Suc (length sids - MAX_CACHED_SESSIONS)) sids @ [s]"
      by (simp add: keys drop_Suc tl_drop)
    also have "\<dots> = drop (length (sids @ [s]) - MAX_CACHED_SESSIONS) (sids @ [s])"
    proof -
      have "0 < MAX_CACHED_SESSIONS" by (simp add: MAX_CACHED_SESSIONS_def)
      with False have "Suc (length sids) - MAX_CACHED_SESSIONS - length sids = 0"
        and "Suc (length sids) - MAX_CACHED_SESSIONS = Suc (length sids - MAX_CACHED_SESSIONS)"
        by auto
      then show ?thesis by simp
    qed
    finally show ?thesis .
  qed
qed

text \<open>
  Claim C1. The table never holds more than \<open>MAX_CACHED_SESSIONS\<close> (100) entries,
  whatever lookups, deliveries and shutdowns happened. Looking up distinct sessions one
  after the other leaves exactly the last hundred of them tracked, in the order of their
  lookups, so the sessions dropped are the least recently inserted ones. In a full table
  the lookup of an untracked session removes the first, oldest entry and appends the new
  one, and a later lookup of the evicted session starts from an empty set.
\<close>

theorem session_table_capacity:
  "length (run_table_ops ops) \<le> MAX_CACHED_SESSIONS
   \<and> (distinct sids \<longrightarrow>
        map fst (run_table_ops (map GetSessionCache sids))
          = drop (length sids - MAX_CACHED_SESSIONS) sids)
   \<and> (length (run_table_ops ops) = MAX_CACHED_SESSIONS \<and> \<not> map_has (run_table_ops ops) sid \<longrightarrow>
        map fst (snd (getSessionCache sid (run_table_ops ops)))
          = tl (map fst (run_table_ops ops)) @ [sid]
        \<and> \<not> map_has (snd (getSessionCache sid (run_table_ops ops))) (fst (hd (run_table_ops ops)))
        \<and> fst (getSessionCache (fst (hd (run_table_ops ops)))
                 (snd (getSessionCache sid (run_table_ops ops))))
            = \<lparr>injectedPaths = []\<rparr>)"
proof (intro conjI impI)
  show "length (run_table_ops ops) \<le> MAX_CACHED_SESSIONS"
    using table_ok_run [of ops] by (simp add: table_ok_def)
next
  assume "distinct sids"
  then show "map fst (run_table_ops (map GetSessionCache sids))
               = drop (length sids - MAX_CACHED_SESSIONS) sids"
    by (rule keys_of_lookups)
next
  let ?m = "run_table_ops ops"
  let ?m' = "snd (getSessionCache sid ?m)"
  assume "length ?m = MAX_CACHED_SESSIONS \<and> \<not> map_has ?m sid"
  then have full: "MAX_CACHED_SESSIONS \<le> length ?m" and fresh: "\<not> map_has ?m sid" by auto
  from full have ne: "?m \<noteq> []" by (auto simp: MAX_CACHED_SESSIONS_def)
  have d: "distinct (map fst ?m)" using table_ok_run [of ops] by (simp add: table_ok_def)
  have m': "?m' = tl ?m @ [(sid, \<lparr>injectedPaths = []\<rparr>)]"
    using getSessionCache_full [OF fresh full] map_delete_hd [OF d ne] by simp
  then show keys: "map fst ?m' = tl (map fst ?m) @ [sid]" by (simp add: map_tl)
  from ne have hd_in: "fst (hd ?m) \<in> set (map fst ?m)" by (cases ?m) auto
  with fresh have "fst (hd ?m) \<noteq> sid" by (auto simp: map_has_def)
  moreover from d ne have "fst (hd ?m) \<notin> set (tl (map fst ?m))" by (cases ?m) auto
  ultimately show gone: "\<not> map_has ?m' (fst (hd ?m))"
    unfolding map_has_def keys by simp
  then show "fst (getSessionCache (fst (hd ?m)) ?m') = \<lparr>injectedPaths = []\<rparr>"
    by (rule getSessionCache_fresh)
qed

theorem session_table_capacity_witness:
  "length (run_table_ops sampleOps) \<le> MAX_CACHED_SESSIONS
   \<and> map fst (run_table_ops (map GetSessionCache (sessionNames 101)))
       = drop (length (sessionNames 101) - MAX_CACHED_SESSIONS) (sessionNames 101)
   \<and> map fst (snd (getSessionCache ''100'' (run_table_ops sampleOps)))
       = tl (map fst (run_table_ops sampleOps)) @ [''100'']
   \<and> \<not> map_has (snd (getSessionCache ''100'' (run_table_ops sampleOps)))
          (fst (hd (run_table_ops sampleOps)))
   \<and> fst (getSessionCache (fst (hd (run_table_ops sampleOps)))
            (snd (getSessionCache ''100'' (run_table_ops sampleOps))))
       = \<lparr>injectedPaths = []\<rparr>"
proof -
  have d: "distinct (sessionNames 101)" by code_simp
  have f: "length (run_table_ops sampleOps) = MAX_CACHED_SESSIONS
           \<and> \<not> map_has (run_table_ops sampleOps) ''100''" by code_simp
  from session_table_capacity [of sampleOps "sessionNames 101" "''100''"] d f
  show ?thesis by blast
qed

subsection \<open>The hierarchy walk returns\<close>

lemma dropWhile_hd: "dropWhile P xs \<noteq> [] \<Longrightarrow> \<not> P (hd (dropWhile P xs))"
  using hd_dropWhile by blast

lemma skip_segment_shorter:
  assumes "r = dropWhile (\<lambda>c. c \<noteq> CHR ''/'') (dropWhile (\<lambda>c. c = CHR ''/'') xs)" "r \<noteq> []"
  shows "length r < length xs"
proof -
  define r1 where "r1 = dropWhile (\<lambda>c. c = CHR ''/'') xs"
  have r: "r = dropWhile (\<lambda>c. c \<noteq> CHR ''/'') r1" using assms(1) by (simp only: r1_def)
  with assms(2) have ne: "r1 \<noteq> []" by auto
  then have "\<not> (\<lambda>c. c = CHR ''/'') (hd r1)"
    unfolding r1_def by (rule dropWhile_hd)
  with ne have "takeWhile (\<lambda>c. c \<noteq> CHR ''/'') r1 \<noteq> []" by (cases r1) auto
  then have "0 < length (takeWhile (\<lambda>c. c \<noteq> CHR ''/'') r1)" by simp
  moreover have "length (takeWhile (\<lambda>c. c \<noteq> CHR ''/'') r1 @ dropWhile (\<lambda>c. c \<noteq> CHR ''/'') r1) = length r1"
    by (simp only: takeWhile_dropWhile_id)
  then have "length r1 = length (takeWhile (\<lambda>c. c \<noteq> CHR ''/'') r1) + length r"
    unfolding r by (simp only: length_append)
  moreover have "length r1 \<le> length xs" unfolding r1_def by (rule length_dropWhile_le)
  ultimately show ?thesis by linarith
qed


lemma path_dirname_unfold:
  "p \<noteq> [] \<Longrightarrow> r = dropWhile (\<lambda>c. c \<noteq> CHR ''/'') (dropWhile (\<lambda>c. c = CHR ''/'') (rev (tl p))) \<Longrightarrow>
   path_dirname p =
     (if r = [] then (if hd p = CHR ''/'' then ''/'' else ''.'')
      else if hd p = CHR ''/'' \<and> length r = 1 then ''//'' else take (length r) p)"
  unfolding path_dirname_def Let_def by (simp only: if_False)

lemma path_dirname_empty: "path_dirname [] = ''.''"
  unfolding path_dirname_def by simp

lemma path_dirname_decreases:
  assumes "path_dirname p \<noteq> p"
  shows "dirMeasure (path_dirname p) < dirMeasure p"
proof (cases "p = []")
  case True
  then show ?thesis by (simp add: path_dirname_empty dirMeasure_def)
next
  case False
  define r where "r = dropWhile (\<lambda>c. c \<noteq> CHR ''/'') (dropWhile (\<lambda>c. c = CHR ''/'') (rev (tl p)))"
  note dn = path_dirname_unfold [OF False r_def]
  show ?thesis
  proof (cases "r = []")
    case True
    with dn have "path_dirname p = ''/'' \<or> path_dirname p = ''.''" by (simp split: if_splits)
    moreover from this assms dn True have "p \<noteq> ''.'' \<and> p \<noteq> ''/''" by (auto split: if_splits)
    ultimately show ?thesis by (auto simp: dirMeasure_def)
  next
    case nonempty: False
    from skip_segment_shorter [OF r_def nonempty] have "length r < length (tl p)" by simp
    then have lt: "Suc (length r) < length p" by simp
    from lt nonempty have big: "p \<noteq> ''.'' \<and> p \<noteq> ''/''" by auto
    then have mp: "dirMeasure p = Suc (length p)" by (simp add: dirMeasure_def)
    show ?thesis
    proof (cases "hd p = CHR ''/'' \<and> length r = 1")
      case True
      have "path_dirname p = ''//''"
        unfolding dn if_not_P [OF nonempty] if_P [OF True] by (rule refl)
      then have "dirMeasure (path_dirname p) = 3" by (simp add: dirMeasure_def)
      with True lt mp show ?thesis by simp
    next
      case False
      have "path_dirname p = take (length r) p"
        unfolding dn if_not_P [OF nonempty] if_not_P [OF False] by (rule refl)
      then have "dirMeasure (path_dirname p) \<le> Suc (length r)" by (simp add: dirMeasure_def)
      with lt mp show ?thesis by simp
    qed
  qed
qed

lemma findLoop_returns: "\<exists>r. findLoop fs config rootDir current acc = Some r"
proof (induction "dirMeasure current" arbitrary: current acc rule: less_induct)
  case less
  show ?case
  proof (cases "current = rootDir \<or> (\<not> startsWith current rootDir \<and> current \<noteq> rootDir)
                  \<or> path_dirname current = current")
    case True
    then show ?thesis
      by (subst findLoop.simps) (auto simp: Let_def)
  next
    case False
    then have "dirMeasure (path_dirname current) < dirMeasure current"
      by (simp add: path_dirname_decreases)
    from less [OF this] False show ?thesis
      by (subst findLoop.simps) (simp add: Let_def)
  qed
qed

text \<open>
  Claim C8. The walk of \<open>findAgentsFilesUp\<close> returns for every start directory, root,
  configuration and file system: each step to the parent makes the path strictly smaller
  in \<open>dirMeasure\<close>, and a path whose parent is itself stops the loop, so one of the three
  exits (at the root, outside the root, at a path that is its own parent) is reached.
\<close>

theorem findAgentsFilesUp_returns:
  "\<exists>found. findAgentsFilesUp fs startDir rootDir config = Some found"
  using findLoop_returns [of fs config rootDir startDir "([], [])"]
  by (auto simp: findAgentsFilesUp_def walkUp_def)

theorem findAgentsFilesUp_returns_witness:
  "\<exists>found. findAgentsFilesUp sampleFs ''relative/dir'' ''/proj'' sampleConfig = Some found"
  by (rule findAgentsFilesUp_returns)

subsection \<open>The scan of one directory\<close>

lemma scanFilenames_step:
  "scanFilenames fs current (filename # rest) =
     (if isFileAt fs (path_join current filename)
      then (Some (path_join current filename), [path_join current filename])
      else (fst (scanFilenames fs current rest),
            path_join current filename # snd (scanFilenames fs current rest)))"
  by (simp add: isFileAt_def Let_def split: attempt.splits prod.splits)

lemma scanFilenames_none:
  "fst (scanFilenames fs current names) = None \<Longrightarrow>
     snd (scanFilenames fs current names) = map (path_join current) names
     \<and> list_all (\<lambda>f. \<not> isFileAt fs (path_join current f)) names"
  by (induction names) (auto simp: scanFilenames_step simp del: scanFilenames.simps(2) split: if_splits)

lemma scanFilenames_some:
  "fst (scanFilenames fs current names) = Some p \<Longrightarrow>
     \<exists>pre f post. names = pre @ f # post \<and> p = path_join current f \<and> isFileAt fs p
       \<and> list_all (\<lambda>g. \<not> isFileAt fs (path_join current g)) pre
       \<and> snd (scanFilenames fs current names) = map (path_join current) (pre @ [f])"
proof (induction names)
  case Nil
  then show ?case by simp
next
  case (Cons n names)
  show ?case
  proof (cases "isFileAt fs (path_join current n)")
    case True
    with Cons.prems have "p = path_join current n" by (simp add: scanFilenames_step del: scanFilenames.simps(2))
    with True show ?thesis
      by (intro exI [of _ "[]"] exI [of _ n] exI [of _ names])
         (simp add: scanFilenames_step del: scanFilenames.simps(2))
  next
    case False
    with Cons.prems have "fst (scanFilenames fs current names) = Some p"
      by (simp add: scanFilenames_step del: scanFilenames.simps(2))
    from Cons.IH [OF this] obtain pre f post where
      *: "names = pre @ f # post" "p = path_join current f" "isFileAt fs p"
         "list_all (\<lambda>g. \<not> isFileAt fs (path_join current g)) pre"
         "snd (scanFilenames fs current names) = map (path_join current) (pre @ [f])"
      by blast
    with False show ?thesis
      by (intro exI [of _ "n # pre"] exI [of _ f] exI [of _ post])
         (simp add: scanFilenames_step del: scanFilenames.simps(2))
  qed
qed

text \<open>
  Claim C5. In every directory the candidate filenames are tested in order. When the scan
  has a match, it is the first candidate that is an existing regular file there
  (\<open>statSync\<close> returns and \<open>isFile()\<close> holds, so a directory of that name does not
  count), every earlier candidate was tested and is not one, and no later candidate was
  tested; when it has none, every candidate was tested. The scan adds at most one path to
  \<open>found\<close>. In particular, with the candidates \<open>AGENTS.md\<close>, \<open>CLAUDE.md\<close> and a directory
  that has both files, the scan adds the \<open>AGENTS.md\<close> path only and tests nothing else.
\<close>

theorem scanFilenames_first_match:
  "(case scanFilenames fs current names of
      (None, tested) \<Rightarrow>
        tested = map (path_join current) names
        \<and> list_all (\<lambda>f. \<not> isFileAt fs (path_join current f)) names
    | (Some p, tested) \<Rightarrow>
        (\<exists>pre f post. names = pre @ f # post \<and> p = path_join current f \<and> isFileAt fs p
           \<and> list_all (\<lambda>g. \<not> isFileAt fs (path_join current g)) pre
           \<and> tested = map (path_join current) (pre @ [f])))
   \<and> length (fst (scanDir fs config current acc)) \<le> Suc (length (fst acc))
   \<and> (isFileAt fs (path_join current ''AGENTS.md'') \<and> isFileAt fs (path_join current ''CLAUDE.md'')
        \<and> filenames config = [''AGENTS.md'', ''CLAUDE.md''] \<longrightarrow>
        scanDir fs config current acc
          = (fst acc @ [path_join current ''AGENTS.md''], snd acc @ [path_join current ''AGENTS.md'']))"
proof (intro conjI impI)
  show "case scanFilenames fs current names of
      (None, tested) \<Rightarrow>
        tested = map (path_join current) names
        \<and> list_all (\<lambda>f. \<not> isFileAt fs (path_join current f)) names
    | (Some p, tested) \<Rightarrow>
        (\<exists>pre f post. names = pre @ f # post \<and> p = path_join current f \<and> isFileAt fs p
           \<and> list_all (\<lambda>g. \<not> isFileAt fs (path_join current g)) pre
           \<and> tested = map (path_join current) (pre @ [f]))"
    using scanFilenames_none [of fs current names] scanFilenames_some [of fs current names]
    by (cases "scanFilenames fs current names") (auto split: option.splits)
next
  show "length (fst (scanDir fs config current acc)) \<le> Suc (length (fst acc))"
    by (simp add: scanDir_def split: prod.splits option.splits)
next
  assume "isFileAt fs (path_join current ''AGENTS.md'') \<and> isFileAt fs (path_join current ''CLAUDE.md'')
        \<and> filenames config = [''AGENTS.md'', ''CLAUDE.md'']"
  then show "scanDir fs config current acc
          = (fst acc @ [path_join current ''AGENTS.md''], snd acc @ [path_join current ''AGENTS.md''])"
    by (simp add: scanDir_def scanFilenames_step del: scanFilenames.simps(2))
qed

theorem scanFilenames_first_match_witness:
  "scanDir sampleFs sampleConfig ''/proj/src'' ([], [])
     = ([''/proj/src/AGENTS.md''], [''/proj/src/AGENTS.md''])
   \<and> isFileAt sampleFs ''/proj/src/CLAUDE.md''
   \<and> findAgentsFilesUp sampleFs ''/proj/src'' ''/proj'' sampleConfig = Some [''/proj/src/AGENTS.md'']"
proof -
  have h: "isFileAt sampleFs (path_join ''/proj/src'' ''AGENTS.md'')
           \<and> isFileAt sampleFs (path_join ''/proj/src'' ''CLAUDE.md'')
           \<and> filenames sampleConfig = [''AGENTS.md'', ''CLAUDE.md'']" by code_simp
  have j: "path_join ''/proj/src'' ''AGENTS.md'' = ''/proj/src/AGENTS.md''" by code_simp
  have k: "isFileAt sampleFs ''/proj/src/CLAUDE.md''" by code_simp
  have w: "findAgentsFilesUp sampleFs ''/proj/src'' ''/proj'' sampleConfig = Some [''/proj/src/AGENTS.md'']"
    by code_simp
  note t = scanFilenames_first_match [where fs = sampleFs and current = "''/proj/src''"
         and names = "[''AGENTS.md'', ''CLAUDE.md'']" and config = sampleConfig and acc = "([], [])"]
  from t [THEN conjunct2, THEN conjunct2, THEN mp, OF h]
  have "scanDir sampleFs sampleConfig ''/proj/src'' ([], [])
          = ([path_join ''/proj/src'' ''AGENTS.md''], [path_join ''/proj/src'' ''AGENTS.md''])"
    by simp
  with j k w show ?thesis by simp
qed

subsection \<open>The walk on canonical paths\<close>

lemma abs_path_join: "abs_path segs = CHR ''/'' # js_join ''/'' segs"
  by (induction segs rule: induct_list012) (auto simp: abs_path_def)

lemma js_join_snoc:
  "segs \<noteq> [] \<Longrightarrow> js_join sep (segs @ [s]) = js_join sep segs @ sep @ s"
  by (induction sep segs rule: js_join.induct) auto

lemma abs_path_snoc:
  "abs_path (segs @ [s]) = (if segs = [] then [] else abs_path segs) @ CHR ''/'' # s"
  by (simp add: abs_path_def)

lemma abs_path_append:
  "rs \<noteq> [] \<Longrightarrow> abs_path (rs @ ds) = abs_path rs @ concat (map (\<lambda>s. CHR ''/'' # s) ds)"
  by (simp add: abs_path_def)

lemma startsWith_abs_path: "startsWith (abs_path (rs @ ds)) (abs_path rs)"
proof (cases "rs = []")
  case True
  then show ?thesis by (simp add: startsWith_def abs_path_join)
next
  case False
  then show ?thesis by (simp add: startsWith_def abs_path_append)
qed

lemma length_abs_path: "list_all slashFree segs \<Longrightarrow> segs \<noteq> [] \<Longrightarrow> 2 \<le> length (abs_path segs)"
  by (cases segs) (auto simp: abs_path_def slashFree_def Suc_le_eq)

lemma abs_path_longer:
  assumes "list_all slashFree (rs @ ds)" "ds \<noteq> []"
  shows "length (abs_path rs) < length (abs_path (rs @ ds))"
proof (cases "rs = []")
  case True
  with assms length_abs_path [of ds] show ?thesis by (simp add: abs_path_def)
next
  case False
  from assms(2) obtain d ds' where "ds = d # ds'" by (cases ds) auto
  with False show ?thesis by (simp add: abs_path_append)
qed

lemma abs_path_neq:
  "list_all slashFree (rs @ ds) \<Longrightarrow> ds \<noteq> [] \<Longrightarrow> abs_path (rs @ ds) \<noteq> abs_path rs"
  using abs_path_longer [of rs ds] by auto

lemma dropWhile_all: "(\<And>x. x \<in> set xs \<Longrightarrow> P x) \<Longrightarrow> dropWhile P xs = []"
  by (induction xs) auto

lemma dropWhile_none: "xs \<noteq> [] \<Longrightarrow> \<not> P (hd xs) \<Longrightarrow> dropWhile P xs = xs"
  by (cases xs) auto

lemma path_dirname_abs_path:
  assumes s: "slashFree s" and segs: "list_all slashFree segs"
  shows "path_dirname (abs_path (segs @ [s])) = abs_path segs"
proof -
  let ?p = "abs_path (segs @ [s])"
  from s have s_ne: "rev s \<noteq> []" and s_all: "\<And>c. c \<in> set (rev s) \<Longrightarrow> c \<noteq> CHR ''/''"
    by (auto simp: slashFree_def)
  from s_ne s_all have s_hd: "\<not> (\<lambda>c. c = CHR ''/'') (hd (rev s))" by (cases "rev s") auto
  have p_ne: "?p \<noteq> []" by (simp add: abs_path_join)
  have root: "hd ?p = CHR ''/''" by (simp add: abs_path_join)
  show ?thesis
  proof (cases "segs = []")
    case True
    then have tl: "tl ?p = s" by (simp add: abs_path_def)
    have a: "dropWhile (\<lambda>c. c = CHR ''/'') (rev s) = rev s" using s_ne s_hd by (rule dropWhile_none)
    have b: "dropWhile (\<lambda>c. c \<noteq> CHR ''/'') (rev s) = []" using s_all by (rule dropWhile_all)
    have r: "[] = dropWhile (\<lambda>c. c \<noteq> CHR ''/'') (dropWhile (\<lambda>c. c = CHR ''/'') (rev (tl ?p)))"
      by (simp only: tl a b)
    from path_dirname_unfold [OF p_ne r] root True show ?thesis by (simp add: abs_path_def)
  next
    case False
    define x where "x = js_join ''/'' segs"
    have X: "abs_path segs = CHR ''/'' # x" by (simp add: abs_path_join x_def)
    from False have p: "?p = CHR ''/'' # x @ CHR ''/'' # s" by (simp add: abs_path_snoc X)
    from length_abs_path [OF segs False] X have x_ne: "x \<noteq> []" by auto
    have a: "rev (tl ?p) = rev s @ CHR ''/'' # rev x" by (simp add: p)
    have b: "dropWhile (\<lambda>c. c = CHR ''/'') (rev s @ CHR ''/'' # rev x) = rev s @ CHR ''/'' # rev x"
      using s_ne s_hd by (intro dropWhile_none) auto
    have "dropWhile (\<lambda>c. c \<noteq> CHR ''/'') (rev s @ CHR ''/'' # rev x)
            = dropWhile (\<lambda>c. c \<noteq> CHR ''/'') (CHR ''/'' # rev x)"
      by (rule dropWhile_append2) (rule s_all)
    then have c: "dropWhile (\<lambda>c. c \<noteq> CHR ''/'') (rev s @ CHR ''/'' # rev x) = CHR ''/'' # rev x"
      by simp
    have r: "CHR ''/'' # rev x
        = dropWhile (\<lambda>c. c \<noteq> CHR ''/'') (dropWhile (\<lambda>c. c = CHR ''/'') (rev (tl ?p)))"
      by (simp only: a b c)
    from path_dirname_unfold [OF p_ne r] x_ne have "path_dirname ?p = take (Suc (length x)) ?p"
      by simp
    also have "\<dots> = abs_path segs" by (simp add: p X)
    finally show ?thesis .
  qed
qed


lemma splitSlash_plain: "CHR ''/'' \<notin> set s \<Longrightarrow> splitSlash s = [s]"
  by (induction s) auto

lemma splitSlash_append:
  "CHR ''/'' \<notin> set s \<Longrightarrow> splitSlash (s @ CHR ''/'' # rest) = s # splitSlash rest"
  by (induction s) auto

lemma splitSlash_js_join:
  "segs \<noteq> [] \<Longrightarrow> list_all slashFree segs \<Longrightarrow> splitSlash (js_join ''/'' segs) = segs"
proof (induction segs rule: induct_list012)
  case 1
  then show ?case by simp
next
  case (2 x)
  then show ?case by (simp add: splitSlash_plain slashFree_def)
next
  case (3 x y zs)
  then have "splitSlash (js_join ''/'' (y # zs)) = y # zs" by simp
  moreover from 3 have "CHR ''/'' \<notin> set x" by (simp add: slashFree_def)
  ultimately show ?case using splitSlash_append [of x "js_join ''/'' (y # zs)"] by simp
qed

lemma normStep_simple: "simpleName seg \<Longrightarrow> normStep allow res seg = res @ [seg]"
  by (auto simp: normStep_def simpleName_def slashFree_def)

lemma foldl_normStep_simple:
  "list_all simpleName segs \<Longrightarrow> foldl (normStep allow) res segs = res @ segs"
  by (induction segs arbitrary: res) (auto simp: normStep_simple)

lemma simpleName_slashFree: "list_all simpleName segs \<Longrightarrow> list_all slashFree segs"
  by (induction segs) (auto simp: simpleName_def)

lemma path_join_abs_path:
  assumes segs: "list_all simpleName segs" and f: "simpleName f"
  shows "path_join (abs_path segs) f = abs_path (segs @ [f])"
proof -
  let ?p = "abs_path segs @ CHR ''/'' # f"
  from f have f_ne: "f \<noteq> []" and f_free: "CHR ''/'' \<notin> set f"
    by (auto simp: simpleName_def slashFree_def)
  from f_ne f_free have last: "last ?p \<noteq> CHR ''/''" by (cases f rule: rev_cases) auto
  have all: "list_all simpleName (segs @ [f])" using segs f by simp
  have split: "splitSlash ?p = [] # (if segs = [] then [[]] else []) @ segs @ [f]"
  proof (cases "segs = []")
    case True
    with f_free show ?thesis by (simp add: abs_path_def splitSlash_plain)
  next
    case False
    then have "js_join ''/'' segs @ CHR ''/'' # f = js_join ''/'' (segs @ [f])"
      by (simp add: js_join_snoc)
    with False show ?thesis
      using splitSlash_js_join [of "segs @ [f]"] simpleName_slashFree [OF all]
      by (simp add: abs_path_join)
  qed
  have e: "normStep False [] [] = []" by (simp add: normStep_def)
  have "normalizeSegments ?p False = foldl (normStep False) [] (segs @ [f])"
    unfolding normalizeSegments_def split by (cases "segs = []") (simp_all add: e)
  also have "\<dots> = segs @ [f]"
    using foldl_normStep_simple [OF all, of False "[]"] by simp
  finally have q: "normalizeString ?p False = js_join ''/'' (segs @ [f])"
    by (simp add: normalizeString_def)
  have q_ne: "js_join ''/'' (segs @ [f]) \<noteq> []"
    using abs_path_join [of "segs @ [f]"] length_abs_path [OF simpleName_slashFree [OF all]] by auto
  have "path_normalize ?p = abs_path (segs @ [f])"
    using q q_ne last by (simp add: path_normalize_def abs_path_join [of "segs @ [f]"] abs_path_join [of segs] Let_def)
  moreover have "path_join (abs_path segs) f = path_normalize ?p"
    using f_ne by (simp add: path_join_def abs_path_join [of segs])
  ultimately show ?thesis by simp
qed

lemma findLoop_at_root:
  "findLoop fs config rootDir rootDir acc
     = Some (if excludeRoot config then acc else scanDir fs config rootDir acc)"
  by (subst findLoop.simps) (simp add: Let_def)

lemma findLoop_below_root:
  assumes "current \<noteq> rootDir" "startsWith current rootDir" "path_dirname current \<noteq> current"
  shows "findLoop fs config rootDir current acc
           = findLoop fs config rootDir (path_dirname current) (scanDir fs config current acc)"
  using assms by (subst findLoop.simps) (simp add: Let_def)

lemma findLoop_climb:
  assumes "list_all slashFree (rs @ rev below)"
  shows "findLoop fs config (abs_path rs) (abs_path (rs @ rev below)) acc
           = Some (if excludeRoot config then climb fs config rs below acc
                   else scanDir fs config (abs_path rs) (climb fs config rs below acc))"
  using assms
proof (induction below arbitrary: acc)
  case Nil
  show ?case by (simp add: findLoop_at_root)
next
  case (Cons d up)
  let ?cur = "abs_path (rs @ rev (d # up))"
  from Cons.prems have d: "slashFree d" and segs: "list_all slashFree (rs @ rev up)" by auto
  have parent: "path_dirname ?cur = abs_path (rs @ rev up)"
    using path_dirname_abs_path [OF d segs] by simp
  have neq: "?cur \<noteq> abs_path rs"
    using abs_path_neq [of rs "rev (d # up)"] Cons.prems by simp
  have neq2: "?cur \<noteq> abs_path (rs @ rev up)"
    using abs_path_neq [of "rs @ rev up" "[d]"] Cons.prems by simp
  have "findLoop fs config (abs_path rs) ?cur acc
          = findLoop fs config (abs_path rs) (abs_path (rs @ rev up)) (scanDir fs config ?cur acc)"
    using findLoop_below_root [OF neq startsWith_abs_path, of fs config acc] neq2 parent by simp
  also have "\<dots> = Some (if excludeRoot config then climb fs config rs up (scanDir fs config ?cur acc)
                   else scanDir fs config (abs_path rs) (climb fs config rs up (scanDir fs config ?cur acc)))"
    by (rule Cons.IH [OF segs])
  finally show ?case by simp
qed

lemma scanFilenames_tested:
  "set (snd (scanFilenames fs current names)) \<subseteq> path_join current ` set names"
  by (induction names) (auto simp: scanFilenames_step simp del: scanFilenames.simps(2))

lemma scanFilenames_found_tested:
  "fst (scanFilenames fs current names) = Some p \<Longrightarrow> p \<in> set (snd (scanFilenames fs current names))"
  by (induction names) (auto simp: scanFilenames_step simp del: scanFilenames.simps(2) split: if_splits)

lemma scanDir_tested:
  "set (snd (scanDir fs config current acc))
     \<subseteq> set (snd acc) \<union> path_join current ` set (filenames config)"
  using scanFilenames_tested [of fs current "filenames config"]
  by (auto simp: scanDir_def split: prod.splits)

lemma scanDir_found:
  "set (fst acc) \<subseteq> set (snd acc) \<Longrightarrow>
     set (fst (scanDir fs config current acc)) \<subseteq> set (snd (scanDir fs config current acc))"
  using scanFilenames_found_tested [of fs current "filenames config"]
  by (auto simp: scanDir_def split: prod.splits option.splits)

lemma climb_found:
  "set (fst acc) \<subseteq> set (snd acc) \<Longrightarrow>
     set (fst (climb fs config rs below acc)) \<subseteq> set (snd (climb fs config rs below acc))"
proof (induction below arbitrary: acc)
  case Nil
  then show ?case by simp
next
  case (Cons d up)
  from Cons.prems
  have "set (fst (scanDir fs config (abs_path (rs @ rev (d # up))) acc))
          \<subseteq> set (snd (scanDir fs config (abs_path (rs @ rev (d # up))) acc))"
    by (rule scanDir_found)
  from Cons.IH [OF this] show ?case by (simp only: climb.simps)
qed

lemma climb_tested:
  assumes "list_all simpleName (rs @ rev below)" "list_all simpleName (filenames config)"
    and "\<forall>p\<in>set (snd acc). path_dirname p \<noteq> abs_path rs"
  shows "\<forall>p\<in>set (snd (climb fs config rs below acc)). path_dirname p \<noteq> abs_path rs"
  using assms
proof (induction below arbitrary: acc)
  case Nil
  then show ?case by simp
next
  case (Cons d up)
  let ?segs = "rs @ rev (d # up)"
  let ?cur = "abs_path ?segs"
  from Cons.prems(1) have simple: "list_all simpleName ?segs" by simp
  have neq: "?cur \<noteq> abs_path rs"
    using abs_path_neq [of rs "rev (d # up)"] simpleName_slashFree [OF simple] by simp
  have step: "\<forall>p\<in>set (snd (scanDir fs config ?cur acc)). path_dirname p \<noteq> abs_path rs"
  proof
    fix p assume "p \<in> set (snd (scanDir fs config ?cur acc))"
    with scanDir_tested [of fs config ?cur acc]
    consider "p \<in> set (snd acc)" | f where "f \<in> set (filenames config)" "p = path_join ?cur f"
      by auto
    then show "path_dirname p \<noteq> abs_path rs"
    proof cases
      case 1
      with Cons.prems(3) show ?thesis by simp
    next
      case 2
      with Cons.prems(2) have f: "simpleName f" by (simp add: list_all_iff)
      then have "slashFree f" by (simp add: simpleName_def)
      with 2 path_join_abs_path [OF simple f]
        path_dirname_abs_path [of f ?segs] simpleName_slashFree [OF simple]
      have "path_dirname p = ?cur" by simp
      with neq show ?thesis by simp
    qed
  qed
  from Cons.prems(1) have up: "list_all simpleName (rs @ rev up)" by simp
  from Cons.IH [OF up Cons.prems(2) step] show ?case by (simp only: climb.simps)
qed


text \<open>
  Claim C6. Let the root \<open>R\<close> and the start directory \<open>D\<close> be absolute canonical paths,
  \<open>D\<close> equal to \<open>R\<close> or below it, and let the candidates be simple file names. With
  \<open>excludeRoot\<close> set, the walk tests no path located in \<open>R\<close> itself, and so returns none
  (every path it returns is one it tested). With \<open>excludeRoot\<close> unset, when the scan of
  \<open>R\<close> has a match, that match is located in \<open>R\<close> and is the first element of the
  result, which is ordered outermost first.
\<close>

theorem findAgentsFilesUp_root:
  assumes "list_all simpleName (rs @ ds)" "list_all simpleName (filenames config)"
  shows "(excludeRoot config \<longrightarrow>
            (\<exists>found tested.
                walkUp fs (abs_path (rs @ ds)) (abs_path rs) config = Some (found, tested)
              \<and> findAgentsFilesUp fs (abs_path (rs @ ds)) (abs_path rs) config = Some (rev found)
              \<and> set found \<subseteq> set tested
              \<and> list_all (\<lambda>p. path_dirname p \<noteq> abs_path rs) tested))
       \<and> (\<not> excludeRoot config \<longrightarrow>
            (case fst (scanFilenames fs (abs_path rs) (filenames config)) of
               None \<Rightarrow> True
             | Some p \<Rightarrow>
                 path_dirname p = abs_path rs
               \<and> (\<exists>rest. findAgentsFilesUp fs (abs_path (rs @ ds)) (abs_path rs) config
                            = Some (p # rest))))"
proof (intro conjI impI)
  let ?below = "climb fs config rs (rev ds) ([], [])"
  from assms(1) have free: "list_all slashFree (rs @ rev (rev ds))"
    using simpleName_slashFree by simp
  note walk = findLoop_climb [OF free, of fs config "([], [])", simplified rev_rev_ident]
  {
    assume ex: "excludeRoot config"
    with walk have w: "walkUp fs (abs_path (rs @ ds)) (abs_path rs) config = Some ?below"
      by (simp add: walkUp_def)
    have "set (fst ?below) \<subseteq> set (snd ?below)" by (rule climb_found) simp
    moreover have "\<forall>p\<in>set (snd ?below). path_dirname p \<noteq> abs_path rs"
      by (rule climb_tested) (use assms in simp_all)
    ultimately show "\<exists>found tested.
                walkUp fs (abs_path (rs @ ds)) (abs_path rs) config = Some (found, tested)
              \<and> findAgentsFilesUp fs (abs_path (rs @ ds)) (abs_path rs) config = Some (rev found)
              \<and> set found \<subseteq> set tested
              \<and> list_all (\<lambda>p. path_dirname p \<noteq> abs_path rs) tested"
      using w by (intro exI [of _ "fst ?below"] exI [of _ "snd ?below"])
                 (simp add: findAgentsFilesUp_def list_all_iff)
  }
  {
    assume inc: "\<not> excludeRoot config"
    show "case fst (scanFilenames fs (abs_path rs) (filenames config)) of
               None \<Rightarrow> True
             | Some p \<Rightarrow>
                 path_dirname p = abs_path rs
               \<and> (\<exists>rest. findAgentsFilesUp fs (abs_path (rs @ ds)) (abs_path rs) config
                            = Some (p # rest))"
    proof (cases "fst (scanFilenames fs (abs_path rs) (filenames config))")
      case None
      then show ?thesis by simp
    next
      case (Some p)
      from scanFilenames_some [OF Some] obtain pre f post where
        pf: "filenames config = pre @ f # post" "p = path_join (abs_path rs) f" by blast
      then have f: "f \<in> set (filenames config)" "p = path_join (abs_path rs) f" by simp_all
      with assms(2) have sf: "simpleName f" by (simp add: list_all_iff)
      from assms(1) have rs: "list_all simpleName rs" by simp
      have loc: "path_dirname p = abs_path rs"
        using f(2) path_join_abs_path [OF rs sf] path_dirname_abs_path [of f rs]
          simpleName_slashFree [OF rs] sf
        by (simp add: simpleName_def)
      from inc walk have "walkUp fs (abs_path (rs @ ds)) (abs_path rs) config
                           = Some (scanDir fs config (abs_path rs) ?below)"
        by (simp add: walkUp_def)
      moreover have "fst (scanDir fs config (abs_path rs) ?below) = fst ?below @ [p]"
        using Some by (cases "scanFilenames fs (abs_path rs) (filenames config)") (simp add: scanDir_def)
      ultimately have "findAgentsFilesUp fs (abs_path (rs @ ds)) (abs_path rs) config
                         = Some (p # rev (fst ?below))"
        by (simp add: findAgentsFilesUp_def)
      with loc Some show ?thesis by simp
    qed
  }
qed


theorem findAgentsFilesUp_root_witness:
  "(\<exists>found tested.
       walkUp sampleFs ''/proj/src/api'' ''/proj'' sampleConfig = Some (found, tested)
     \<and> findAgentsFilesUp sampleFs ''/proj/src/api'' ''/proj'' sampleConfig = Some (rev found)
     \<and> set found \<subseteq> set tested
     \<and> list_all (\<lambda>p. path_dirname p \<noteq> ''/proj'') tested)
   \<and> path_dirname ''/proj/AGENTS.md'' = ''/proj''
   \<and> (\<exists>rest. findAgentsFilesUp sampleFs ''/proj/src/api'' ''/proj'' (sampleConfig\<lparr>excludeRoot := False\<rparr>)
                = Some (''/proj/AGENTS.md'' # rest))"
proof -
  have s1: "list_all simpleName ([''proj''] @ [''src'', ''api''])" by code_simp
  have s2: "list_all simpleName (filenames sampleConfig)" by code_simp
  have s3: "list_all simpleName (filenames (sampleConfig\<lparr>excludeRoot := False\<rparr>))" by code_simp
  have ex: "excludeRoot sampleConfig" by code_simp
  have inc: "\<not> excludeRoot (sampleConfig\<lparr>excludeRoot := False\<rparr>)" by simp
  have p1: "abs_path ([''proj''] @ [''src'', ''api'']) = ''/proj/src/api''" by code_simp
  have p2: "abs_path [''proj''] = ''/proj''" by code_simp
  have sc: "fst (scanFilenames sampleFs ''/proj'' (filenames (sampleConfig\<lparr>excludeRoot := False\<rparr>)))
              = Some ''/proj/AGENTS.md''" by code_simp
  note t1 = findAgentsFilesUp_root [OF s1 s2, of sampleFs, THEN conjunct1, THEN mp, OF ex, unfolded p1 p2]
  note t2 = findAgentsFilesUp_root [OF s1 s3, of sampleFs, THEN conjunct2, THEN mp, OF inc, unfolded p1 p2 sc]
  from t2 have "path_dirname ''/proj/AGENTS.md'' = ''/proj''
     \<and> (\<exists>rest. findAgentsFilesUp sampleFs ''/proj/src/api'' ''/proj'' (sampleConfig\<lparr>excludeRoot := False\<rparr>)
                = Some (''/proj/AGENTS.md'' # rest))"
    by (simp only: option.case)
  with t1 show ?thesis by (intro conjI) (elim conjE; assumption)+
qed

subsection \<open>The read hook\<close>

lemma map_of_map_set: "map_of (map_set m k v) k = Some v"
proof (cases "map_has m k")
  case True
  then show ?thesis
    by (induction m) (auto simp: map_set_def map_has_def)
next
  case False
  then show ?thesis by (simp add: map_set_def map_has_map_of map_add_def)
qed

lemma map_has_getSessionCache: "map_has (snd (getSessionCache sid m)) sid"
  by (auto simp: getSessionCache_def Let_def map_has_map_of map_of_map_set split: option.splits)

lemma map_of_getSessionCache:
  "map_of (snd (getSessionCache sid m)) sid = Some (fst (getSessionCache sid m))"
  by (auto simp: getSessionCache_def Let_def map_of_map_set split: option.splits)

lemma map_of_map_delete: "x \<noteq> k \<Longrightarrow> map_of (map_delete m k) x = map_of m x"
  by (induction m) (auto simp: map_delete_def)

lemma injectedPaths_getSessionCache:
  "injectedPaths (fst (getSessionCache sid m)) = deliveredTo m sid"
proof (cases "map_has m sid")
  case True
  then obtain c where c: "map_of m sid = Some c" by (auto simp: map_has_map_of)
  with True show ?thesis by (simp add: getSessionCache_def deliveredTo_def)
next
  case False
  then show ?thesis by (simp add: getSessionCache_fresh deliveredTo_def map_has_map_of)
qed

lemma deliveredTo_getSessionCache:
  "deliveredTo (snd (getSessionCache sid m)) sid = deliveredTo m sid"
  using injectedPaths_getSessionCache [of sid m]
  by (simp add: deliveredTo_def map_of_getSessionCache)

lemma deliveredTo_map_set: "deliveredTo (map_set m sid c) sid = injectedPaths c"
  by (simp add: deliveredTo_def map_of_map_set)

lemma wasInjected_deliveredTo: "wasInjected m sid p \<longleftrightarrow> p \<in> set (deliveredTo m sid)"
  by (simp add: wasInjected_def deliveredTo_def split: option.splits)


lemma directoryContext_read:
  "readFileSync fs p = Returns c \<Longrightarrow>
     ''[Directory Context: '' @ path_relative (cwd host) (resolvedRootOf host) p @ '']''
       @ [CHR 0x0A] @ truncateContent (cwd host) c (maxContextSize config) p (resolvedRootOf host)
     = directoryContext fs host config p"
  by (simp add: directoryContext_def)

lemma injectLoop_spec:
  "\<exists>new errs.
      injectLoop fs host config (resolvedRootOf host) files (ctxs, seen, out)
        = (ctxs @ map (directoryContext fs host config) new, seen @ new, out @ errs)
    \<and> list_all (readable fs) new
    \<and> set new \<subseteq> set files
    \<and> set new \<inter> set seen = {}
    \<and> (\<forall>q\<in>set files. readable fs q \<longrightarrow> q \<in> set (seen @ new))
    \<and> list_all (\<lambda>c. \<not> isWarn c) errs"
proof (induction files arbitrary: ctxs seen out)
  case Nil
  show ?case by (intro exI [of _ "[]"]) simp
next
  case (Cons p rest)
  show ?case
  proof (cases "p \<in> set seen")
    case True
    from Cons.IH [of ctxs seen out] obtain new errs where
      *: "injectLoop fs host config (resolvedRootOf host) rest (ctxs, seen, out)
            = (ctxs @ map (directoryContext fs host config) new, seen @ new, out @ errs)"
         "list_all (readable fs) new" "set new \<subseteq> set rest" "set new \<inter> set seen = {}"
         "\<forall>q\<in>set rest. readable fs q \<longrightarrow> q \<in> set (seen @ new)"
         "list_all (\<lambda>c. \<not> isWarn c) errs"
      by blast
    with True show ?thesis
      by (intro exI [of _ new] exI [of _ errs]) auto
  next
    case fresh: False
    show ?thesis
    proof (cases "readFileSync fs p")
      case Throws
      let ?e = "ConsoleError (''[progressive-context] Error reading '' @ p @ '':'')"
      from Cons.IH [of ctxs seen "out @ [?e]"] obtain new errs where
        *: "injectLoop fs host config (resolvedRootOf host) rest (ctxs, seen, out @ [?e])
              = (ctxs @ map (directoryContext fs host config) new, seen @ new, (out @ [?e]) @ errs)"
           "list_all (readable fs) new" "set new \<subseteq> set rest" "set new \<inter> set seen = {}"
           "\<forall>q\<in>set rest. readable fs q \<longrightarrow> q \<in> set (seen @ new)"
           "list_all (\<lambda>c. \<not> isWarn c) errs"
        by blast
      moreover from Throws have "\<not> readable fs p" by (simp add: readable_def)
      ultimately show ?thesis using fresh Throws
        by (intro exI [of _ new] exI [of _ "?e # errs"]) auto
    next
      case (Returns c)
      let ?ctx = "directoryContext fs host config p"
      from Cons.IH [of "ctxs @ [?ctx]" "seen @ [p]" out] obtain new errs where
        *: "injectLoop fs host config (resolvedRootOf host) rest (ctxs @ [?ctx], seen @ [p], out)
              = ((ctxs @ [?ctx]) @ map (directoryContext fs host config) new, (seen @ [p]) @ new, out @ errs)"
           "list_all (readable fs) new" "set new \<subseteq> set rest" "set new \<inter> set (seen @ [p]) = {}"
           "\<forall>q\<in>set rest. readable fs q \<longrightarrow> q \<in> set ((seen @ [p]) @ new)"
           "list_all (\<lambda>c. \<not> isWarn c) errs"
        by blast
      have step: "injectLoop fs host config (resolvedRootOf host) (p # rest) (ctxs, seen, out)
                   = injectLoop fs host config (resolvedRootOf host) rest (ctxs @ [?ctx], seen @ [p], out)"
        using fresh Returns by (simp add: directoryContext_def set_add_def Let_def)
      from Returns have "readable fs p" by (simp add: readable_def)
      with * fresh show ?thesis
        unfolding step
        by (intro exI [of _ "p # new"] exI [of _ errs]) auto
    qed
  qed
qed


lemma handler_not_read:
  "toolName event \<noteq> ''read'' \<or> (\<forall>filePath. input_path event = JString filePath \<longrightarrow> filePath = []) \<Longrightarrow>
     tool_result_handler fs host config sid caches event = Some (skipped caches [])"
  by (cases "input_path event") (auto simp: tool_result_handler_def)

lemma handler_outside:
  assumes "toolName event = ''read''" "input_path event = JString filePath" "filePath \<noteq> []"
    and "\<not> startsWith (resolvedPathOf host filePath) (resolvedRootOf host)"
  shows "tool_result_handler fs host config sid caches event
           = Some (skipped caches
               [ConsoleWarn (''[progressive-context] Path '' @ filePath @ '' outside workspace, skipping'')])"
  using assms
  by (simp add: tool_result_handler_def resolvedPathOf_def resolvedRootOf_def absolutePathOf_def Let_def)

lemma handler_inside:
  assumes "toolName event = ''read''" "input_path event = JString filePath" "filePath \<noteq> []"
    and "startsWith (resolvedPathOf host filePath) (resolvedRootOf host)"
    and "findAgentsFilesUp fs (path_dirname (absolutePathOf host filePath)) (resolvedRootOf host) config
           = Some files"
    and "injectLoop fs host config (resolvedRootOf host) files ([], deliveredTo caches sid, [])
           = (ctxs, seen, errs)"
  shows "tool_result_handler fs host config sid caches event
           = Some (if files = [] then skipped (snd (getSessionCache sid caches)) []
                   else \<lparr>returned =
                           (if ctxs = [] then None
                            else Some \<lparr>content = content event
                                         @ [TextContent (CONTEXT_SEPARATOR @ js_join CONTEXT_SEPARATOR ctxs)],
                                       details = details event, isError = isError event\<rparr>),
                         sessionCaches =
                           map_set (snd (getSessionCache sid caches)) sid
                             ((fst (getSessionCache sid caches))\<lparr>injectedPaths := seen\<rparr>),
                         console =
                           (if ctxs = [] then errs
                            else errs @ [ConsoleLog (''[progressive-context] Injected ''
                                   @ string_of_nat (length ctxs) @ '' context file(s) for '' @ filePath)]),
                         agentsFiles = files, contexts = ctxs\<rparr>)"
proof -
  obtain cache caches1 where g: "getSessionCache sid caches = (cache, caches1)"
    by (cases "getSessionCache sid caches")
  then have "injectedPaths cache = deliveredTo caches sid"
    using injectedPaths_getSessionCache [of sid caches] by simp
  with assms g show ?thesis
    unfolding tool_result_handler_def
    by (simp add: resolvedPathOf_def [symmetric] resolvedRootOf_def [symmetric]
          absolutePathOf_def [symmetric] Let_def)
qed


lemma skipped_simps:
  "returned (skipped caches out :: 'd HandlerOutcome) = None"
  "sessionCaches (skipped caches out :: 'd HandlerOutcome) = caches"
  "console (skipped caches out :: 'd HandlerOutcome) = out"
  "agentsFiles (skipped caches out :: 'd HandlerOutcome) = []"
  "contexts (skipped caches out :: 'd HandlerOutcome) = []"
  by (simp_all add: skipped_def)

lemma handler_outcome:
  "\<exists>out new.
      tool_result_handler fs host config sid caches event = Some out
    \<and> contexts out = map (directoryContext fs host config) new
    \<and> deliveredTo (sessionCaches out) sid = deliveredTo caches sid @ new
    \<and> returned out =
          (if contexts out = [] then None
           else Some \<lparr>content = content event
                        @ [TextContent (CONTEXT_SEPARATOR @ js_join CONTEXT_SEPARATOR (contexts out))],
                      details = details event, isError = isError event\<rparr>)
    \<and> list_all (readable fs) new
    \<and> set new \<subseteq> set (agentsFiles out)
    \<and> set new \<inter> set (deliveredTo caches sid) = {}
    \<and> (\<forall>q\<in>set (agentsFiles out). readable fs q \<longrightarrow> q \<in> set (deliveredTo (sessionCaches out) sid))"
proof (cases "toolName event \<noteq> ''read'' \<or> (\<forall>filePath. input_path event = JString filePath \<longrightarrow> filePath = [])")
  case True
  from handler_not_read [OF True] show ?thesis
    by (intro exI [of _ "skipped caches []"] exI [of _ "[]"]) (simp add: skipped_simps)
next
  case False
  then obtain filePath where guards:
    "toolName event = ''read''" "input_path event = JString filePath" "filePath \<noteq> []"
    by auto
  show ?thesis
  proof (cases "startsWith (resolvedPathOf host filePath) (resolvedRootOf host)")
    case outside: False
    from handler_outside [OF guards outside] show ?thesis
      by (intro exI [of _ "skipped caches
               [ConsoleWarn (''[progressive-context] Path '' @ filePath @ '' outside workspace, skipping'')]"]
            exI [of _ "[]"]) (simp add: skipped_simps)
  next
    case inside: True
    obtain files where files:
      "findAgentsFilesUp fs (path_dirname (absolutePathOf host filePath)) (resolvedRootOf host) config
         = Some files"
      using findAgentsFilesUp_returns by blast
    let ?seen = "deliveredTo caches sid"
    from injectLoop_spec [of fs host config files "[]" ?seen "[]"] obtain new errs where
      loop: "injectLoop fs host config (resolvedRootOf host) files ([], ?seen, [])
               = (map (directoryContext fs host config) new, ?seen @ new, errs)"
      and new: "list_all (readable fs) new" "set new \<subseteq> set files" "set new \<inter> set ?seen = {}"
        "\<forall>q\<in>set files. readable fs q \<longrightarrow> q \<in> set (?seen @ new)"
      by auto
    note h = handler_inside [OF guards inside files loop]
    show ?thesis
    proof (cases "files = []")
      case True
      with new have "new = []" by simp
      with h True show ?thesis
        by (intro exI [of _ "skipped (snd (getSessionCache sid caches)) []"] exI [of _ "[]"])
           (simp add: skipped_simps deliveredTo_getSessionCache)
    next
      case False
      with h new show ?thesis
        by (intro exI [of _ "the (tool_result_handler fs host config sid caches event)"] exI [of _ new])
           (simp add: deliveredTo_map_set)
    qed
  qed
qed


lemma map_has_map_set: "map_has (map_set m k v) k"
  by (simp add: map_has_map_of map_of_map_set)

text \<open>
  Claim C7. Every invocation of the read hook returns. When \<open>contexts\<close> is empty at the
  end (nothing undelivered was accumulated) it returns \<open>undefined\<close>, so the result of
  the operation is left untouched. Otherwise it returns the content blocks of the event,
  unchanged and in order, followed by exactly one text block, which holds the separator
  and the accumulated fragments joined by the separator; \<open>details\<close> and \<open>isError\<close> are
  those of the event. The accumulated fragments are the headed, bounded texts of the
  paths that this invocation added to the session's set, in that order.
\<close>

theorem tool_result_frame:
  "\<exists>out.
      tool_result_handler fs host config sessionID caches event = Some out
    \<and> returned out =
          (if contexts out = [] then None
           else Some \<lparr>content = content event
                        @ [TextContent (CONTEXT_SEPARATOR @ js_join CONTEXT_SEPARATOR (contexts out))],
                      details = details event, isError = isError event\<rparr>)
    \<and> contexts out =
          map (directoryContext fs host config)
            (drop (length (deliveredTo caches sessionID)) (deliveredTo (sessionCaches out) sessionID))"
proof -
  from handler_outcome [of fs host config sessionID caches event] obtain out new where
    "tool_result_handler fs host config sessionID caches event = Some out"
    "contexts out = map (directoryContext fs host config) new"
    "deliveredTo (sessionCaches out) sessionID = deliveredTo caches sessionID @ new"
    "returned out =
          (if contexts out = [] then None
           else Some \<lparr>content = content event
                        @ [TextContent (CONTEXT_SEPARATOR @ js_join CONTEXT_SEPARATOR (contexts out))],
                      details = details event, isError = isError event\<rparr>)"
    by blast
  then show ?thesis by (intro exI [of _ out]) simp
qed

theorem tool_result_frame_witness:
  "\<exists>out.
      tool_result_handler sampleFs projHost sampleConfig ''s1'' [] (readEvent ''/proj/src/api/x.ts'')
        = Some out
    \<and> returned out =
          (if contexts out = [] then None
           else Some \<lparr>content = content (readEvent ''/proj/src/api/x.ts'')
                        @ [TextContent (CONTEXT_SEPARATOR @ js_join CONTEXT_SEPARATOR (contexts out))],
                      details = details (readEvent ''/proj/src/api/x.ts''),
                      isError = isError (readEvent ''/proj/src/api/x.ts'')\<rparr>)
    \<and> contexts out =
          map (directoryContext sampleFs projHost sampleConfig)
            (drop (length (deliveredTo [] ''s1'')) (deliveredTo (sessionCaches out) ''s1''))"
  by (rule tool_result_frame)

text \<open>
  Claim C9. If reading a path throws, an invocation of the read hook leaves the delivered
  status of that path for the session as it was, so a path that was not delivered stays
  undelivered; and every fragment path found by the walk whose read does not throw is
  delivered to the session after the invocation, with its text among the accumulated
  fragments unless it had been delivered before.
\<close>

theorem unreadable_fragment_skipped:
  assumes "readFileSync fs p = Throws"
  shows "\<exists>out.
      tool_result_handler fs host config sessionID caches event = Some out
    \<and> wasInjected (sessionCaches out) sessionID p = wasInjected caches sessionID p
    \<and> (\<forall>q\<in>set (agentsFiles out). readable fs q \<longrightarrow>
          wasInjected (sessionCaches out) sessionID q
        \<and> (wasInjected caches sessionID q
           \<or> directoryContext fs host config q \<in> set (contexts out)))"
proof -
  from handler_outcome [of fs host config sessionID caches event] obtain out new where
    out: "tool_result_handler fs host config sessionID caches event = Some out"
    and ctx: "contexts out = map (directoryContext fs host config) new"
    and del: "deliveredTo (sessionCaches out) sessionID = deliveredTo caches sessionID @ new"
    and new: "list_all (readable fs) new"
    and all: "\<forall>q\<in>set (agentsFiles out). readable fs q \<longrightarrow> q \<in> set (deliveredTo (sessionCaches out) sessionID)"
    by blast
  from assms have "\<not> readable fs p" by (simp add: readable_def)
  with new have "p \<notin> set new" by (auto simp: list_all_iff)
  with del have 1: "wasInjected (sessionCaches out) sessionID p = wasInjected caches sessionID p"
    by (simp add: wasInjected_deliveredTo)
  have 2: "\<forall>q\<in>set (agentsFiles out). readable fs q \<longrightarrow>
          wasInjected (sessionCaches out) sessionID q
        \<and> (wasInjected caches sessionID q
           \<or> directoryContext fs host config q \<in> set (contexts out))"
    using all del ctx by (auto simp: wasInjected_deliveredTo)
  from out 1 2 show ?thesis by blast
qed


theorem unreadable_fragment_skipped_witness:
  "(\<exists>out.
      tool_result_handler vanishedFs projHost (sampleConfig\<lparr>excludeRoot := False\<rparr>) ''s1'' []
        (readEvent ''/proj/src/api/x.ts'') = Some out
    \<and> wasInjected (sessionCaches out) ''s1'' ''/proj/src/AGENTS.md''
        = wasInjected [] ''s1'' ''/proj/src/AGENTS.md''
    \<and> (\<forall>q\<in>set (agentsFiles out). readable vanishedFs q \<longrightarrow>
          wasInjected (sessionCaches out) ''s1'' q
        \<and> (wasInjected [] ''s1'' q
           \<or> directoryContext vanishedFs projHost (sampleConfig\<lparr>excludeRoot := False\<rparr>) q
               \<in> set (contexts out))))
   \<and> isFileAt vanishedFs ''/proj/src/AGENTS.md''
   \<and> map_option agentsFiles
         (tool_result_handler vanishedFs projHost (sampleConfig\<lparr>excludeRoot := False\<rparr>) ''s1'' []
            (readEvent ''/proj/src/api/x.ts''))
       = Some [''/proj/AGENTS.md'', ''/proj/src/AGENTS.md'']
   \<and> map_option sessionCaches
         (tool_result_handler vanishedFs projHost (sampleConfig\<lparr>excludeRoot := False\<rparr>) ''s1'' []
            (readEvent ''/proj/src/api/x.ts''))
       = Some [(''s1'', \<lparr>injectedPaths = [''/proj/AGENTS.md'']\<rparr>)]"
proof -
  have t: "readFileSync vanishedFs ''/proj/src/AGENTS.md'' = Throws" by code_simp
  have a: "isFileAt vanishedFs ''/proj/src/AGENTS.md''" by code_simp
  have b: "map_option agentsFiles
         (tool_result_handler vanishedFs projHost (sampleConfig\<lparr>excludeRoot := False\<rparr>) ''s1'' []
            (readEvent ''/proj/src/api/x.ts''))
       = Some [''/proj/AGENTS.md'', ''/proj/src/AGENTS.md'']" by code_simp
  have c: "map_option sessionCaches
         (tool_result_handler vanishedFs projHost (sampleConfig\<lparr>excludeRoot := False\<rparr>) ''s1'' []
            (readEvent ''/proj/src/api/x.ts''))
       = Some [(''s1'', \<lparr>injectedPaths = [''/proj/AGENTS.md'']\<rparr>)]" by code_simp
  from unreadable_fragment_skipped [OF t, of projHost "sampleConfig\<lparr>excludeRoot := False\<rparr>" "''s1''" "[]"
      "readEvent ''/proj/src/api/x.ts''"] a b c
  show ?thesis by (intro conjI)
qed

text \<open>
  What the path check does: for an invocation for the \<open>read\<close> tool with a non-empty
  string path, when the resolved path does not start with the text of the resolved root,
  the handler returns \<open>undefined\<close>, leaves the session table as it was, and its only
  console output is one warning naming the path. When the resolved path starts with the
  text of the resolved root, the handler goes on: the session is looked up and is tracked
  afterwards, the walk starts at the directory of the path, and no warning is printed.
\<close>

lemma path_check_textual:
  assumes "toolName event = ''read''" "input_path event = JString filePath" "filePath \<noteq> []"
  shows "(if startsWith (resolvedPathOf host filePath) (resolvedRootOf host)
          then \<exists>out files.
                 tool_result_handler fs host config sessionID caches event = Some out
               \<and> findAgentsFilesUp fs (path_dirname (absolutePathOf host filePath))
                     (resolvedRootOf host) config = Some files
               \<and> agentsFiles out = files
               \<and> map_has (sessionCaches out) sessionID
               \<and> list_all (\<lambda>c. \<not> isWarn c) (console out)
          else tool_result_handler fs host config sessionID caches event
                 = Some \<lparr>returned = None, sessionCaches = caches,
                          console = [ConsoleWarn (''[progressive-context] Path '' @ filePath
                                                    @ '' outside workspace, skipping'')],
                          agentsFiles = [], contexts = []\<rparr>)"
proof (cases "startsWith (resolvedPathOf host filePath) (resolvedRootOf host)")
  case False
  from handler_outside [OF assms False, of fs config sessionID caches]
  have "tool_result_handler fs host config sessionID caches event
                 = Some \<lparr>returned = None, sessionCaches = caches,
                          console = [ConsoleWarn (''[progressive-context] Path '' @ filePath
                                                    @ '' outside workspace, skipping'')],
                          agentsFiles = [], contexts = []\<rparr>"
    by (simp add: skipped_def)
  then show ?thesis unfolding if_not_P [OF False] .
next
  case True
  obtain files where files:
    "findAgentsFilesUp fs (path_dirname (absolutePathOf host filePath)) (resolvedRootOf host) config
       = Some files"
    using findAgentsFilesUp_returns by blast
  from injectLoop_spec [of fs host config files "[]" "deliveredTo caches sessionID" "[]"]
  obtain new errs where
    loop: "injectLoop fs host config (resolvedRootOf host) files ([], deliveredTo caches sessionID, [])
             = (map (directoryContext fs host config) new, deliveredTo caches sessionID @ new, errs)"
    and errs: "list_all (\<lambda>c. \<not> isWarn c) errs"
    by auto
  note h = handler_inside [OF assms True files loop]
  have "\<exists>out. tool_result_handler fs host config sessionID caches event = Some out
               \<and> agentsFiles out = files
               \<and> map_has (sessionCaches out) sessionID
               \<and> list_all (\<lambda>c. \<not> isWarn c) (console out)"
  proof (cases "files = []")
    case True
    with h show ?thesis
      by (intro exI [of _ "skipped (snd (getSessionCache sessionID caches)) []"])
         (simp add: skipped_simps map_has_getSessionCache)
  next
    case False
    with h errs show ?thesis
      by (intro exI [of _ "the (tool_result_handler fs host config sessionID caches event)"])
         (simp add: map_has_map_set)
  qed
  with files have "\<exists>out files.
                 tool_result_handler fs host config sessionID caches event = Some out
               \<and> findAgentsFilesUp fs (path_dirname (absolutePathOf host filePath))
                     (resolvedRootOf host) config = Some files
               \<and> agentsFiles out = files
               \<and> map_has (sessionCaches out) sessionID
               \<and> list_all (\<lambda>c. \<not> isWarn c) (console out)"
    by blast
  then show ?thesis unfolding if_P [OF True] .
qed

lemma path_check_textual_example:
  "tool_result_handler sampleFs projHost sampleConfig ''s1'' [] (readEvent ''../../etc/passwd'')
     = Some \<lparr>returned = None, sessionCaches = [],
              console = [ConsoleWarn (''[progressive-context] Path '' @ ''../../etc/passwd''
                                        @ '' outside workspace, skipping'')],
              agentsFiles = [], contexts = []\<rparr>
   \<and> (\<exists>out files.
         tool_result_handler sampleFs projHost sampleConfig ''s1'' [] (readEvent ''/proj/src/api/x.ts'')
           = Some out
       \<and> findAgentsFilesUp sampleFs (path_dirname (absolutePathOf projHost ''/proj/src/api/x.ts''))
             (resolvedRootOf projHost) sampleConfig = Some files
       \<and> agentsFiles out = files
       \<and> map_has (sessionCaches out) ''s1''
       \<and> list_all (\<lambda>c. \<not> isWarn c) (console out))"
proof -
  have g1: "toolName (readEvent ''../../etc/passwd'') = ''read''"
    and g2: "input_path (readEvent ''../../etc/passwd'') = JString ''../../etc/passwd''"
    and g3: "''../../etc/passwd'' \<noteq> []"
    by (simp_all add: readEvent_def)
  have out: "\<not> startsWith (resolvedPathOf projHost ''../../etc/passwd'') (resolvedRootOf projHost)"
    by code_simp
  have h1: "toolName (readEvent ''/proj/src/api/x.ts'') = ''read''"
    and h2: "input_path (readEvent ''/proj/src/api/x.ts'') = JString ''/proj/src/api/x.ts''"
    and h3: "''/proj/src/api/x.ts'' \<noteq> []"
    by (simp_all add: readEvent_def)
  have ins: "startsWith (resolvedPathOf projHost ''/proj/src/api/x.ts'') (resolvedRootOf projHost)"
    by code_simp
  note a = path_check_textual [OF g1 g2 g3, of projHost sampleFs sampleConfig "''s1''" "[]",
      unfolded if_not_P [OF out]]
  note b = path_check_textual [OF h1 h2 h3, of projHost sampleFs sampleConfig "''s1''" "[]",
      unfolded if_P [OF ins]]
  from a b show ?thesis by (intro conjI)
qed

text \<open>
  Claim C2. An invocation of the read hook whose resolved target path lies outside the
  workspace root should inject nothing, leave the session table alone and print a
  warning. The handler does so only when the text of the resolved path does not start
  with the text of the resolved root. Here the root is \<open>/work\<close> and the path read is
  \<open>/workspace/a.ts\<close>, already absolute and canonical and not inside \<open>/work\<close>: the handler
  returns an augmented result that carries \<open>/workspace/AGENTS.md\<close>, records that path for
  the session, and prints no warning.
\<close>

theorem path_check_accepts_sibling:
  "resolvedRootOf workHost = ''/work''
   \<and> resolvedPathOf workHost ''/workspace/a.ts'' = ''/workspace/a.ts''
   \<and> \<not> insideDir (resolvedRootOf workHost) (resolvedPathOf workHost ''/workspace/a.ts'')
   \<and> map_option contexts
         (tool_result_handler sampleFs workHost sampleConfig ''s1'' [] (readEvent ''/workspace/a.ts''))
       = Some [''[Directory Context: ../workspace/AGENTS.md]'' @ [CHR 0x0A] @ ''other-doc'']
   \<and> map_option (\<lambda>out. returned out = None)
         (tool_result_handler sampleFs workHost sampleConfig ''s1'' [] (readEvent ''/workspace/a.ts''))
       = Some False
   \<and> map_option sessionCaches
         (tool_result_handler sampleFs workHost sampleConfig ''s1'' [] (readEvent ''/workspace/a.ts''))
       = Some [(''s1'', \<lparr>injectedPaths = [''/workspace/AGENTS.md'']\<rparr>)]
   \<and> map_option (\<lambda>out. list_all (\<lambda>c. \<not> isWarn c) (console out))
         (tool_result_handler sampleFs workHost sampleConfig ''s1'' [] (readEvent ''/workspace/a.ts''))
       = Some True"
  by code_simp

text \<open>
  Claim C10. The containment test compares strings. With the root \<open>/work\<close>, the path
  \<open>/workspace/a.ts\<close> is not inside the root directory, but its text starts with the text
  of the root; the read hook accepts it and injects \<open>/workspace/AGENTS.md\<close>, and the manual
  tool accepts the directory \<open>/workspace\<close> and returns the same fragment.
\<close>

theorem prefix_sibling_accepted:
  "\<not> insideDir ''/work'' ''/workspace/a.ts''
   \<and> path_isAbsolute ''/workspace/a.ts''
   \<and> resolvedRootOf workHost = ''/work''
   \<and> resolvedPathOf workHost ''/workspace/a.ts'' = ''/workspace/a.ts''
   \<and> startsWith ''/workspace/a.ts'' ''/work''
   \<and> tool_result_handler sampleFs workHost sampleConfig ''s1'' [] (readEvent ''/workspace/a.ts'')
       = Some \<lparr>returned = Some
                  \<lparr>content = [TextContent ''file body'', OtherContent ''image'',
                               TextContent (CONTEXT_SEPARATOR @ ''[Directory Context: ../workspace/AGENTS.md]''
                                              @ [CHR 0x0A] @ ''other-doc'')],
                   details = (), isError = False\<rparr>,
                sessionCaches = [(''s1'', \<lparr>injectedPaths = [''/workspace/AGENTS.md'']\<rparr>)],
                console = [ConsoleLog ''[progressive-context] Injected 1 context file(s) for /workspace/a.ts''],
                agentsFiles = [''/workspace/AGENTS.md''],
                contexts = [''[Directory Context: ../workspace/AGENTS.md]'' @ [CHR 0x0A] @ ''other-doc'']\<rparr>
   \<and> \<not> insideDir ''/work'' ''/workspace''
   \<and> inject_context_execute sampleFs workHost sampleConfig ''/workspace''
       = Some \<lparr>resultContent = [TextContent (''[../workspace/AGENTS.md]:'' @ [CHR 0x0A] @ ''other-doc'')],
                resultIsError = None\<rparr>"
  by code_simp

subsection \<open>The end-to-end example\<close>

text \<open>
  Workspace \<open>/proj\<close> with \<open>excludeRoot\<close> set: a read of \<open>/proj/src/api/x.ts\<close> injects
  exactly the fragment of \<open>/proj/src\<close>; a second read in the same session injects
  nothing; after the session's shutdown a read injects the fragment again.
\<close>

lemma end_to_end_example:
  "map_option (\<lambda>out. (contexts out, sessionCaches out))
      (tool_result_handler sampleFs projHost sampleConfig ''s1'' [] (readEvent ''/proj/src/api/x.ts''))
     = Some ([''[Directory Context: src/AGENTS.md]'' @ [CHR 0x0A] @ ''src-doc''],
             [(''s1'', \<lparr>injectedPaths = [''/proj/src/AGENTS.md'']\<rparr>)])
   \<and> map_option returned
      (tool_result_handler sampleFs projHost sampleConfig ''s1''
         [(''s1'', \<lparr>injectedPaths = [''/proj/src/AGENTS.md'']\<rparr>)] (readEvent ''/proj/src/api/y.ts''))
     = Some None
   \<and> fst (session_shutdown_handler ''s1'' [(''s1'', \<lparr>injectedPaths = [''/proj/src/AGENTS.md'']\<rparr>)]) = []
   \<and> map_option contexts
      (tool_result_handler sampleFs projHost sampleConfig ''s1'' [] (readEvent ''/proj/src/api/y.ts''))
     = Some [''[Directory Context: src/AGENTS.md]'' @ [CHR 0x0A] @ ''src-doc'']"
  by code_simp

end
